theory Spec2Isabelle
  imports Main
begin

section \<open>JavaScript regular expressions over code-unit strings\<close>

text \<open>
  The citation extractor of \<^verbatim>\<open>ChatMessage\<close> is four calls of
  \<^verbatim>\<open>String.prototype.replace\<close> with a global regular expression and a callback.
  The regular expressions are data here, and one backtracking matcher gives them the
  meaning ECMAScript gives them: alternatives are tried left to right, a greedy star tries
  the longest repetition first, a lazy star the shortest, and the first success wins.

  A text is a \<^typ>\<open>string\<close>: a list of code units below 256 (ASCII and Latin-1).
  Within that range \<^verbatim>\<open>\s\<close> is tab, line feed, vertical tab, form feed, carriage return,
  space and no-break space, \<^verbatim>\<open>\d\<close> is the ten ASCII digits, and \<^verbatim>\<open>.\<close> is
  every code unit but line feed and carriage return. With the \<^verbatim>\<open>i\<close> flag an ASCII
  letter of a pattern matches its two cases and nothing else.
\<close>

type_synonym caps = "(nat \<times> string) list"

datatype regex =
    Eps
  | Chr "char list"
  | NotChr "char list"
  | Seq regex regex
  | Alt regex regex
  | Star regex
  | LazyStar regex
  | Grp nat regex
  | NegAhead regex

text \<open>
  \<open>ms r (g, s)\<close> lists, in the order a backtracking matcher tries them, the ways \<open>r\<close>
  matches a prefix of \<open>s\<close>: each with the captures after the match and the text left.
  An iteration of a star that consumes nothing is dropped, as ECMAScript's repeat matcher does.
\<close>

fun ms :: "regex \<Rightarrow> caps \<times> string \<Rightarrow> (caps \<times> string) list" where
  "ms Eps st = [st]"
| "ms (Chr cs) (g, s) = (case s of [] \<Rightarrow> [] | c # r \<Rightarrow> if c \<in> set cs then [(g, r)] else [])"
| "ms (NotChr cs) (g, s) = (case s of [] \<Rightarrow> [] | c # r \<Rightarrow> if c \<in> set cs then [] else [(g, r)])"
| "ms (Seq a b) st = concat (map (ms b) (ms a st))"
| "ms (Alt a b) st = ms a st @ ms b st"
| "ms (Star a) (g, s) =
     concat (map (ms (Star a)) (filter (\<lambda>st'. length (snd st') < length s) (ms a (g, s)))) @ [(g, s)]"
| "ms (LazyStar a) (g, s) =
     (g, s) # concat (map (ms (LazyStar a)) (filter (\<lambda>st'. length (snd st') < length s) (ms a (g, s))))"
| "ms (Grp n a) (g, s) =
     map (\<lambda>(g', s'). ((n, take (length s - length s') s) # g', s')) (ms a (g, s))"
| "ms (NegAhead a) st = (if ms a st = [] then [st] else [])"

definition seqs :: "regex list \<Rightarrow> regex" where
  "seqs rs = foldr Seq rs Eps"

fun alts :: "regex list \<Rightarrow> regex" where
  "alts [] = NotChr []"
| "alts [r] = r"
| "alts (r # rs) = Alt r (alts rs)"

definition plus :: "regex \<Rightarrow> regex" where
  "plus a = Seq a (Star a)"

definition plus_lazy :: "regex \<Rightarrow> regex" where
  "plus_lazy a = Seq a (LazyStar a)"

definition opt :: "regex \<Rightarrow> regex" where
  "opt a = Alt a Eps"

definition lowers :: string where
  "lowers = ''abcdefghijklmnopqrstuvwxyz''"

definition uppers :: string where
  "uppers = ''ABCDEFGHIJKLMNOPQRSTUVWXYZ''"

definition ci_class :: "char \<Rightarrow> char list" where
  "ci_class c =
     (case map_of (zip lowers uppers) c of
        Some u \<Rightarrow> [c, u]
      | None \<Rightarrow> (case map_of (zip uppers lowers) c of Some l \<Rightarrow> [c, l] | None \<Rightarrow> [c]))"

definition lit :: "string \<Rightarrow> regex" where
  "lit s = seqs (map (\<lambda>c. Chr [c]) s)"

definition lit_i :: "string \<Rightarrow> regex" where
  "lit_i s = seqs (map (\<lambda>c. Chr (ci_class c)) s)"

definition ws :: regex where
  "ws = Chr [CHR 0x09, CHR 0x0A, CHR 0x0B, CHR 0x0C, CHR 0x0D, CHR 0x20, CHR 0xA0]"

definition digit :: regex where
  "digit = Chr ''0123456789''"

definition dot :: regex where
  "dot = NotChr [CHR 0x0A, CHR 0x0D]"

subsection \<open>exec, test, match and replace\<close>

record rmatch =
  m_text :: string
  m_groups :: caps
  m_index :: nat

definition match_here :: "regex \<Rightarrow> nat \<Rightarrow> string \<Rightarrow> rmatch option" where
  "match_here re off s =
     (case ms re ([], s) of
        [] \<Rightarrow> None
      | (g, r) # _ \<Rightarrow> Some \<lparr>m_text = take (length s - length r) s, m_groups = g, m_index = off\<rparr>)"

text \<open>The leftmost match at or after the current position (\<^verbatim>\<open>RegExp.prototype.exec\<close>).\<close>

fun find_from :: "regex \<Rightarrow> nat \<Rightarrow> string \<Rightarrow> rmatch option" where
  "find_from re off [] = match_here re off []"
| "find_from re off (c # cs) =
     (case match_here re off (c # cs) of
        Some m \<Rightarrow> Some m
      | None \<Rightarrow> find_from re (Suc off) cs)"

definition js_exec :: "regex \<Rightarrow> string \<Rightarrow> rmatch option" where
  "js_exec re s = find_from re 0 s"

definition js_test :: "regex \<Rightarrow> string \<Rightarrow> bool" where
  "js_test re s = (js_exec re s \<noteq> None)"

text \<open>
  The matches of a global regular expression, left to right and without overlap. \<open>skip\<close>
  counts the code units of the current match that are still to be passed over; after an
  empty match the position advances by one.
\<close>

fun find_all :: "regex \<Rightarrow> nat \<Rightarrow> nat \<Rightarrow> string \<Rightarrow> rmatch list" where
  "find_all re off skip [] =
     (if skip = 0 then (case match_here re off [] of Some m \<Rightarrow> [m] | None \<Rightarrow> []) else [])"
| "find_all re off skip (c # cs) =
     (if 0 < skip then find_all re (Suc off) (skip - 1) cs
      else (case match_here re off (c # cs) of
              None \<Rightarrow> find_all re (Suc off) 0 cs
            | Some m \<Rightarrow> m # find_all re (Suc off) (length (m_text m) - 1) cs))"

definition js_match_all :: "regex \<Rightarrow> string \<Rightarrow> string list" where
  "js_match_all re s = map m_text (find_all re 0 0 s)"

text \<open>
  \<^verbatim>\<open>text.replace(re, callback)\<close> for a global \<open>re\<close>: every match is replaced by what the
  callback returns for it, and the text between matches is copied.
\<close>

fun scan_replace :: "regex \<Rightarrow> (rmatch \<Rightarrow> string) \<Rightarrow> nat \<Rightarrow> nat \<Rightarrow> string \<Rightarrow> string" where
  "scan_replace re cb off skip [] =
     (if skip = 0 then (case match_here re off [] of Some m \<Rightarrow> cb m | None \<Rightarrow> []) else [])"
| "scan_replace re cb off skip (c # cs) =
     (if 0 < skip then scan_replace re cb (Suc off) (skip - 1) cs
      else (case match_here re off (c # cs) of
              None \<Rightarrow> c # scan_replace re cb (Suc off) 0 cs
            | Some m \<Rightarrow>
                if m_text m = [] then cb m @ c # scan_replace re cb (Suc off) 0 cs
                else cb m @ scan_replace re cb (Suc off) (length (m_text m) - 1) cs))"

definition js_replace :: "regex \<Rightarrow> (rmatch \<Rightarrow> string) \<Rightarrow> string \<Rightarrow> string" where
  "js_replace re cb s = scan_replace re cb 0 0 s"

text \<open>A capture group of a match; every group of the expressions below takes part in every match.\<close>

definition grp :: "rmatch \<Rightarrow> nat \<Rightarrow> string" where
  "grp m n = (case map_of (m_groups m) n of Some s \<Rightarrow> s | None \<Rightarrow> [])"

text \<open>\<^verbatim>\<open>fullText[i]\<close>: \<^verbatim>\<open>undefined\<close> outside the text.\<close>

definition char_at :: "string \<Rightarrow> int \<Rightarrow> char option" where
  "char_at s i = (if 0 \<le> i \<and> nat i < length s then Some (s ! nat i) else None)"

section \<open>The citation extractor (ChatMessage)\<close>

definition KANDA_MAP :: "string \<rightharpoonup> string" where
  "KANDA_MAP = map_of
     [(''1'', ''Bala Kanda''), (''2'', ''Ayodhya Kanda''), (''3'', ''Aranya Kanda''),
      (''4'', ''Kishkindha Kanda''), (''5'', ''Sundara Kanda''), (''6'', ''Yuddha Kanda''),
      (''7'', ''Uttara Kanda'')]"

definition kandaList :: "string list" where
  "kandaList = [''Bala'', ''Ayodhya'', ''Aranya'', ''Kishkindha'', ''Sundara'', ''Yuddha'', ''Uttara'']"

text \<open>\<^verbatim>\<open>(Bala|Ayodhya|Aranya|Kishkindha|Sundara|Yuddha|Uttara)\<close> under the \<^verbatim>\<open>i\<close> flag.\<close>

definition kanda_names :: regex where
  "kanda_names = alts (map lit_i kandaList)"

text \<open>\<^verbatim>\<open>/\[\[Verse:\s*(.+?)\]\]/gi\<close>\<close>

definition BRACKET_CITATION_REGEX :: regex where
  "BRACKET_CITATION_REGEX =
     seqs [lit_i ''[[Verse:'', Star ws, Grp 1 (plus_lazy dot), lit_i '']]'']"

text \<open>\<^verbatim>\<open>/(Bala|...|Uttara)\s*Kanda\s*(\d+)[: ](\d+)/gi\<close>\<close>

definition NAKED_CITATION_REGEX :: regex where
  "NAKED_CITATION_REGEX =
     seqs [Grp 1 kanda_names, Star ws, lit_i ''Kanda'', Star ws, Grp 2 (plus digit),
           Chr '': '', Grp 3 (plus digit)]"

text \<open>\<^verbatim>\<open>/(Bala|...|Uttara)\s*Kanda\s*(?:Sarga\s*)?(\d+)(?!\s*[:\d])/gi\<close>\<close>

definition SARGA_ONLY_REGEX :: regex where
  "SARGA_ONLY_REGEX =
     seqs [Grp 1 kanda_names, Star ws, lit_i ''Kanda'', Star ws,
           opt (seqs [lit_i ''Sarga'', Star ws]), Grp 2 (plus digit),
           NegAhead (seqs [Star ws, Chr '':0123456789''])]"

text \<open>\<^verbatim>\<open>/\[\[CIT:(.+?)\|(\d+)\|(\d+)\]\]/g\<close>\<close>

definition CIT_MARKER_REGEX :: regex where
  "CIT_MARKER_REGEX =
     seqs [lit ''[[CIT:'', Grp 1 (plus_lazy dot), lit ''|'', Grp 2 (plus digit), lit ''|'',
           Grp 3 (plus digit), lit '']]'']"

text \<open>\<^verbatim>\<open>/Kanda\s+(\d+)/i\<close>, \<^verbatim>\<open>/\d+/g\<close> and \<^verbatim>\<open>/:1/g\<close>\<close>

definition KANDA_INDEX_REGEX :: regex where
  "KANDA_INDEX_REGEX = seqs [lit_i ''Kanda'', plus ws, Grp 1 (plus digit)]"

definition NUMBER_REGEX :: regex where
  "NUMBER_REGEX = plus digit"

definition COLON_ONE_REGEX :: regex where
  "COLON_ONE_REGEX = lit '':1''"

definition cit_marker :: "string \<Rightarrow> string \<Rightarrow> string \<Rightarrow> string" where
  "cit_marker cleanKanda sarga shloka = ''[[CIT:'' @ cleanKanda @ ''|'' @ sarga @ ''|'' @ shloka @ '']]''"

text \<open>First pass: the callback of the bracketed form, on the inner text \<open>content\<close>.\<close>

definition bracket_citation :: "string \<Rightarrow> string" where
  "bracket_citation content =
     (let foundKanda = find (\<lambda>k. js_test (lit_i k) content) kandaList;
          cleanKanda =
            (case foundKanda of
               Some k \<Rightarrow> k @ '' Kanda''
             | None \<Rightarrow>
                 (case js_exec KANDA_INDEX_REGEX content of
                    Some kandaIndexMatch \<Rightarrow>
                      (case KANDA_MAP (grp kandaIndexMatch 1) of
                         Some name \<Rightarrow> name
                       | None \<Rightarrow> ''Bala Kanda'')
                  | None \<Rightarrow> ''Bala Kanda''));
          allNumbers = js_match_all NUMBER_REGEX content;
          isIndexed = js_test KANDA_INDEX_REGEX content;
          dataNumbers = (if isIndexed then drop 1 allNumbers else allNumbers)
      in case dataNumbers of
           sarga # shloka # _ \<Rightarrow> cit_marker cleanKanda sarga shloka
         | [sarga] \<Rightarrow> cit_marker cleanKanda sarga ''0''
         | [] \<Rightarrow> cit_marker cleanKanda ''1'' ''1'')"

definition bracket_pass :: "string \<Rightarrow> string" where
  "bracket_pass text = js_replace BRACKET_CITATION_REGEX (\<lambda>m. bracket_citation (grp m 1)) text"

text \<open>
  The guard shared by the second and third pass: the code unit before the match is an
  opening bracket or parenthesis, or the one after it is a closing one.
\<close>

definition adjacent_to_delimiter :: "string \<Rightarrow> rmatch \<Rightarrow> bool" where
  "adjacent_to_delimiter fullText m =
     (let prevChar = char_at fullText (int (m_index m) - 1);
          nextChar = char_at fullText (int (m_index m) + int (length (m_text m)))
      in prevChar = Some CHR ''['' \<or> prevChar = Some CHR ''('' \<or>
         nextChar = Some CHR '']'' \<or> nextChar = Some CHR '')'')"

text \<open>
  Second pass. \<open>processedContent\<close> is the text the pass started from: the callback reads the
  variable before the assignment of the result.
\<close>

definition isSuspicious :: "string \<Rightarrow> string \<Rightarrow> bool" where
  "isSuspicious processedContent vNum =
     (vNum = ''1'' \<and> 2 < length (js_match_all COLON_ONE_REGEX processedContent))"

definition naked_citation :: "string \<Rightarrow> string \<Rightarrow> rmatch \<Rightarrow> string" where
  "naked_citation processedContent fullText m =
     (if adjacent_to_delimiter fullText m then m_text m
      else if isSuspicious processedContent (grp m 3) then m_text m
      else cit_marker (grp m 1 @ '' Kanda'') (grp m 2) (grp m 3))"

definition naked_pass :: "string \<Rightarrow> string" where
  "naked_pass text = js_replace NAKED_CITATION_REGEX (naked_citation text text) text"

text \<open>Third pass: a canto and a chapter alone.\<close>

definition sarga_citation :: "string \<Rightarrow> rmatch \<Rightarrow> string" where
  "sarga_citation fullText m =
     (if adjacent_to_delimiter fullText m then m_text m
      else if char_at fullText (int (m_index m) + int (length (m_text m))) = Some CHR '':''
      then m_text m
      else cit_marker (grp m 1 @ '' Kanda'') (grp m 2) ''0'')"

definition sarga_pass :: "string \<Rightarrow> string" where
  "sarga_pass text = js_replace SARGA_ONLY_REGEX (sarga_citation text) text"

subsection \<open>encodeURIComponent and the final pass\<close>

definition hex_digit :: "nat \<Rightarrow> char" where
  "hex_digit n = ''0123456789ABCDEF'' ! (n mod 16)"

definition percent_byte :: "nat \<Rightarrow> string" where
  "percent_byte b = [CHR ''%'', hex_digit (b div 16), hex_digit b]"

definition uri_unreserved :: "char list" where
  "uri_unreserved = lowers @ uppers @ ''0123456789'' @ [CHR ''-'', CHR ''_'', CHR ''.'', CHR ''!'',
     CHR ''~'', CHR ''*'', CHR 0x27, CHR ''('', CHR '')'']"

text \<open>
  A code unit below 128 that is not unreserved is one escaped byte; one from 128 to 255
  is the two bytes of its UTF-8 encoding.
\<close>

definition encode_unit :: "char \<Rightarrow> string" where
  "encode_unit c =
     (if c \<in> set uri_unreserved then [c]
      else let n = (of_char c :: nat)
           in if n < 128 then percent_byte n
              else percent_byte (192 + n div 64) @ percent_byte (128 + n mod 64))"

definition encodeURIComponent :: "string \<Rightarrow> string" where
  "encodeURIComponent s = concat (map encode_unit s)"

text \<open>The Markdown link the final pass writes for a marker, and the address in it.\<close>

definition citation_href :: "string \<Rightarrow> string \<Rightarrow> string \<Rightarrow> string" where
  "citation_href k s v = ''http://citation/'' @ encodeURIComponent k @ ''/'' @ s @ ''/'' @ v"

definition citation_link :: "string \<Rightarrow> string \<Rightarrow> string \<Rightarrow> string" where
  "citation_link k s v = ''['' @ k @ '' '' @ s @ '':'' @ v @ ''](''  @ citation_href k s v @ '')''"

definition final_pass :: "string \<Rightarrow> string" where
  "final_pass text =
     js_replace CIT_MARKER_REGEX (\<lambda>m. citation_link (grp m 1) (grp m 2) (grp m 3)) text"

definition markers :: "string \<Rightarrow> string" where
  "markers text = sarga_pass (naked_pass (bracket_pass text))"

text \<open>The whole pipeline: \<^verbatim>\<open>processedContent\<close> as it is handed to the Markdown renderer.\<close>

definition extract_citations :: "string \<Rightarrow> string" where
  "extract_citations text = final_pass (markers text)"

text \<open>The citations of a message: the markers the final pass turns into links.\<close>

definition citations :: "string \<Rightarrow> (string \<times> string \<times> string) list" where
  "citations text = map (\<lambda>m. (grp m 1, grp m 2, grp m 3)) (find_all CIT_MARKER_REGEX 0 0 (markers text))"

text \<open>
  A text is settled when a run of the four passes finds nothing to convert in it: no
  bracketed form and no marker, every naked-form match kept by the guard or withheld as
  suspicious, and every chapter-only match kept by the guard or by the colon after it.
\<close>

definition settled :: "string \<Rightarrow> bool" where
  "settled text =
     (find_all BRACKET_CITATION_REGEX 0 0 text = []
      \<and> (\<forall>m\<in>set (find_all NAKED_CITATION_REGEX 0 0 text).
            adjacent_to_delimiter text m \<or> isSuspicious text (grp m 3))
      \<and> (\<forall>m\<in>set (find_all SARGA_ONLY_REGEX 0 0 text).
            adjacent_to_delimiter text m
            \<or> char_at text (int (m_index m) + int (length (m_text m))) = Some CHR '':'')
      \<and> find_all CIT_MARKER_REGEX 0 0 text = [])"

text \<open>
  Vocabulary for statements about every chapter and verse number at once: a number as the
  patterns read it, a non-empty run of decimal digits; the result the backtracking search
  tries first; and a text that does not go on with a digit.
\<close>

definition digits :: "string \<Rightarrow> bool" where
  "digits s = (s \<noteq> [] \<and> set s \<subseteq> set ''0123456789'')"

definition first_match :: "regex \<Rightarrow> caps \<times> string \<Rightarrow> caps \<times> string \<Rightarrow> bool" where
  "first_match r st x = (\<exists>others. ms r st = x # others)"

definition nondigit_start :: "string \<Rightarrow> bool" where
  "nondigit_start R = (case R of [] \<Rightarrow> True | c # _ \<Rightarrow> c \<notin> set ''0123456789'')"

section \<open>The citation renderer (the link component of ChatMessage)\<close>

datatype js_error = TypeError | URIError | OutsideLatin1

definition hex_val :: "char \<Rightarrow> nat option" where
  "hex_val c = map_of (zip ''0123456789ABCDEFabcdef'' [0, 1, 2, 3, 4, 5, 6, 7, 8, 9, 10, 11, 12, 13, 14, 15, 10, 11, 12, 13, 14, 15]) c"

text \<open>The byte of an escape \<^verbatim>\<open>%XX\<close> at the head of a text.\<close>

definition escaped_byte :: "string \<Rightarrow> nat option" where
  "escaped_byte s =
     (case s of
        p # h1 # h2 # _ \<Rightarrow>
          (if p = CHR ''%'' then
             (case (hex_val h1, hex_val h2) of
                (Some a, Some b) \<Rightarrow> Some (16 * a + b)
              | _ \<Rightarrow> None)
           else None)
      | _ \<Rightarrow> None)"

text \<open>
  The escapes that continue a UTF-8 sequence: \<open>n\<close> escapes \<^verbatim>\<open>%XX\<close> in a row, each a
  byte from \<open>0x80\<close> to \<open>0xBF\<close>.
\<close>

fun continuation_bytes :: "nat \<Rightarrow> string \<Rightarrow> nat list option" where
  "continuation_bytes 0 s = Some []"
| "continuation_bytes (Suc n) s =
     (case escaped_byte s of
        None \<Rightarrow> None
      | Some b \<Rightarrow>
          if 128 \<le> b \<and> b < 192 then map_option ((#) b) (continuation_bytes n (drop 3 s))
          else None)"

text \<open>
  The second byte of a well-formed sequence, which rules out overlong forms, surrogates and
  code points above \<open>0x10FFFF\<close>.
\<close>

definition second_byte_ok :: "nat \<Rightarrow> nat \<Rightarrow> bool" where
  "second_byte_ok lead b2 =
     (if lead = 224 then 160 \<le> b2
      else if lead = 237 then b2 < 160
      else if lead = 240 then 144 \<le> b2
      else if lead = 244 then b2 < 144
      else True)"

text \<open>
  \<^verbatim>\<open>decodeURIComponent\<close>. A malformed escape or an ill-formed UTF-8 sequence raises
  \<^verbatim>\<open>URIError\<close>: a lead byte below \<open>0xC2\<close> or above \<open>0xF4\<close>, a missing or wrong
  continuation byte, an overlong form, a surrogate. A well-formed sequence of two bytes with
  lead \<open>0xC2\<close> or \<open>0xC3\<close> is a code unit from 128 to 255. Every other well-formed
  sequence encodes a code point above 255, which has no place in the text model, and is
  reported as \<open>OutsideLatin1\<close> where the built-in returns a text. After the percent sign
  \<open>c\<close> an escape takes two more code units of \<open>cs\<close>, and a second escape three more.
\<close>

function decodeURIComponent :: "string \<Rightarrow> js_error + string" where
  "decodeURIComponent [] = Inr []"
| "decodeURIComponent (c # cs) =
     (if c \<noteq> CHR ''%'' then map_sum id ((#) c) (decodeURIComponent cs)
      else (case escaped_byte (c # cs) of
              None \<Rightarrow> Inl URIError
            | Some b \<Rightarrow>
                if b < 128 then map_sum id ((#) (char_of b)) (decodeURIComponent (drop 2 cs))
                else if b < 194 \<or> 245 \<le> b then Inl URIError
                else if 196 \<le> b then
                  (case continuation_bytes (if b < 224 then 1 else if b < 240 then 2 else 3)
                          (drop 2 cs) of
                     None \<Rightarrow> Inl URIError
                   | Some [] \<Rightarrow> Inl URIError
                   | Some (b2 # _) \<Rightarrow>
                       if second_byte_ok b b2 then Inl OutsideLatin1 else Inl URIError)
                else (case escaped_byte (drop 2 cs) of
                        None \<Rightarrow> Inl URIError
                      | Some b2 \<Rightarrow>
                          if 128 \<le> b2 \<and> b2 < 192
                          then map_sum id ((#) (char_of ((b - 192) * 64 + (b2 - 128))))
                                 (decodeURIComponent (drop 5 cs))
                          else Inl URIError)))"
  by pat_completeness auto
termination
  by (relation "measure length") auto

text \<open>\<^verbatim>\<open>s.split(c)\<close> for a separator of one code unit.\<close>

fun split_on :: "char \<Rightarrow> string \<Rightarrow> string list" where
  "split_on c [] = [[]]"
| "split_on c (x # xs) =
     (if x = c then [] # split_on c xs
      else (case split_on c xs of p # ps \<Rightarrow> (x # p) # ps | [] \<Rightarrow> [[x]]))"

text \<open>\<^verbatim>\<open>s.replace(pat, rep)\<close> for a string pattern: the first occurrence only.\<close>

fun replace_first :: "string \<Rightarrow> string \<Rightarrow> string \<Rightarrow> string" where
  "replace_first pat rep [] = (if pat = [] then rep else [])"
| "replace_first pat rep (c # cs) =
     (if take (length pat) (c # cs) = pat then rep @ drop (length pat) (c # cs)
      else c # replace_first pat rep cs)"

fun map_result :: "('a \<Rightarrow> 'e + 'b) \<Rightarrow> 'a list \<Rightarrow> 'e + 'b list" where
  "map_result f [] = Inr []"
| "map_result f (x # xs) =
     (case f x of
        Inl e \<Rightarrow> Inl e
      | Inr y \<Rightarrow> (case map_result f xs of Inl e \<Rightarrow> Inl e | Inr ys \<Rightarrow> Inr (y # ys)))"

text \<open>\<^verbatim>\<open>parts[i]\<close>, and a value inside a template literal.\<close>

definition part :: "string list \<Rightarrow> nat \<Rightarrow> string option" where
  "part parts i = (if i < length parts then Some (parts ! i) else None)"

definition js_str :: "string option \<Rightarrow> string" where
  "js_str v = (case v of Some s \<Rightarrow> s | None \<Rightarrow> ''undefined'')"

text \<open>
  What the link component renders: for a citation address a button, with its label,
  whether it is the chapter badge, and the arguments its click hands to
  \<^verbatim>\<open>onVerseClick\<close> (\<open>None\<close> when the click returns before the call); for any other
  address an ordinary link.
\<close>

record citation_button =
  label :: string
  isChapterRef :: bool
  title :: string
  onClick :: "(string option \<times> string option \<times> string option) option"

datatype rendered = Button citation_button | Anchor string

definition render_link :: "string \<Rightarrow> js_error + rendered" where
  "render_link href =
     (if href \<noteq> [] \<and> take (length ''http://citation/'') href = ''http://citation/'' then
        (let path = replace_first ''http://citation/'' [] href
         in case map_result decodeURIComponent (split_on CHR ''/'' path) of
              Inl e \<Rightarrow> Inl e
            | Inr parts \<Rightarrow>
                (let kanda = part parts 0; sarga = part parts 1; shloka = part parts 2;
                     chapterRef = (shloka = Some ''0'')
                 in Inr (Button
                      \<lparr>label = (if chapterRef then js_str kanda @ '' '' @ js_str sarga
                                else js_str kanda @ '' '' @ js_str sarga @ '':'' @ js_str shloka),
                       isChapterRef = chapterRef,
                       title = (if chapterRef then ''Chapter Summary'' else ''Tap to read verse''),
                       onClick = (if chapterRef then None else Some (kanda, sarga, shloka))\<rparr>)))
      else Inr (Anchor href))"

text \<open>
  \<^verbatim>\<open>handleVerseClick\<close> of the application: the address of the verse lookup it fetches.
\<close>

definition verse_request :: "string \<Rightarrow> string option \<times> string option \<times> string option \<Rightarrow> string" where
  "verse_request baseUrl args =
     (case args of (kanda, sarga, shloka) \<Rightarrow>
        baseUrl @ ''/verse?kanda='' @ encodeURIComponent (js_str kanda) @ ''&sarga='' @ js_str sarga
          @ ''&shloka='' @ js_str shloka)"

text \<open>The lookups a click on a rendered link sends.\<close>

definition click_lookups :: "string \<Rightarrow> rendered \<Rightarrow> string list" where
  "click_lookups baseUrl r =
     (case r of
        Button b \<Rightarrow> (case onClick b of None \<Rightarrow> [] | Some args \<Rightarrow> [verse_request baseUrl args])
      | Anchor _ \<Rightarrow> [])"

section \<open>The research-progress stream decoder (useAgent)\<close>

datatype msg_role = User | Assistant | Error

record message =
  msg_id :: "nat option"
  role :: msg_role
  content :: string
  thoughts :: "string list option"
  plan :: "string list option"
  planCompletedIndex :: "int option"
  planDetails :: "(int \<rightharpoonup> string list) option"

text \<open>
  A parsed line of the stream, by its \<^verbatim>\<open>type\<close> field, with the fields its handler
  reads. The lines that are blank or fail to parse never reach a handler. The decoder state
  is the list of messages; the separate display value \<^verbatim>\<open>currentThought\<close> is no part of
  a message and is left out. An exception in a state updater ends the run.
\<close>

datatype event =
    Plan "string list" int
  | PlanUpdate int
  | StepDetail int string
  | Thought string
  | Answer string
  | Other

text \<open>The placeholder \<^verbatim>\<open>sendMessage\<close> appends for the answer.\<close>

definition placeholder :: "nat \<Rightarrow> message" where
  "placeholder assistantMsgId =
     \<lparr>msg_id = Some assistantMsgId, role = Assistant, content = [], thoughts = Some [],
      plan = None, planCompletedIndex = None, planDetails = None\<rparr>"

text \<open>
  The three updaters that patch the last message read \<^verbatim>\<open>prev[prev.length - 1].role\<close>,
  which throws on an empty list.
\<close>

definition patch_last :: "(message \<Rightarrow> message) \<Rightarrow> message list \<Rightarrow> js_error + message list" where
  "patch_last f prev =
     (case prev of
        [] \<Rightarrow> Inl TypeError
      | _ \<Rightarrow>
          (let lastMsg = last prev
           in if role lastMsg = Assistant
              then Inr (map (\<lambda>m. if msg_id m = msg_id lastMsg then f m else m) prev)
              else Inr prev))"

definition on_plan :: "string list \<Rightarrow> int \<Rightarrow> message list \<Rightarrow> js_error + message list" where
  "on_plan steps completed prev =
     patch_last (\<lambda>m. m\<lparr>plan := Some steps, planCompletedIndex := Some completed\<rparr>) prev"

definition on_plan_update :: "int \<Rightarrow> message list \<Rightarrow> js_error + message list" where
  "on_plan_update completed prev =
     patch_last (\<lambda>m. m\<lparr>planCompletedIndex := Some completed\<rparr>) prev"

definition step_details :: "message \<Rightarrow> int \<Rightarrow> string list" where
  "step_details m step_index =
     (case planDetails m of
        None \<Rightarrow> []
      | Some prevDetails \<Rightarrow> (case prevDetails step_index of None \<Rightarrow> [] | Some ds \<Rightarrow> ds))"

definition add_detail :: "int \<Rightarrow> string \<Rightarrow> message \<Rightarrow> message" where
  "add_detail step_index detail m =
     (let prevDetails = (case planDetails m of None \<Rightarrow> Map.empty | Some d \<Rightarrow> d);
          stepDetails = (case prevDetails step_index of None \<Rightarrow> [] | Some ds \<Rightarrow> ds)
      in if detail \<in> set stepDetails then m
         else m\<lparr>planDetails := Some (prevDetails(step_index \<mapsto> stepDetails @ [detail]))\<rparr>)"

definition on_step_detail :: "int \<Rightarrow> string \<Rightarrow> message list \<Rightarrow> js_error + message list" where
  "on_step_detail step_index detail prev = patch_last (add_detail step_index detail) prev"

text \<open>
  The updater every line runs last: it patches the message whose id is the one
  \<^verbatim>\<open>sendMessage\<close> chose. Spreading \<^verbatim>\<open>msg.thoughts\<close> throws when the field is absent.
\<close>

definition on_content :: "nat \<Rightarrow> event \<Rightarrow> message \<Rightarrow> js_error + message" where
  "on_content assistantMsgId data msg =
     (if msg_id msg \<noteq> Some assistantMsgId then Inr msg
      else (case data of
              Thought c \<Rightarrow>
                (case thoughts msg of
                   None \<Rightarrow> Inl TypeError
                 | Some ts \<Rightarrow> Inr (msg\<lparr>thoughts := Some (ts @ [c])\<rparr>))
            | Answer c \<Rightarrow> Inr (msg\<lparr>content := c\<rparr>)
            | _ \<Rightarrow> Inr msg))"

definition handle_event :: "nat \<Rightarrow> event \<Rightarrow> message list \<Rightarrow> js_error + message list" where
  "handle_event assistantMsgId data prev =
     (case (case data of
              Plan steps completed \<Rightarrow> on_plan steps completed prev
            | PlanUpdate completed \<Rightarrow> on_plan_update completed prev
            | StepDetail step_index detail \<Rightarrow> on_step_detail step_index detail prev
            | _ \<Rightarrow> Inr prev) of
        Inl e \<Rightarrow> Inl e
      | Inr prev' \<Rightarrow> map_result (on_content assistantMsgId data) prev')"

fun run_events :: "nat \<Rightarrow> event list \<Rightarrow> message list \<Rightarrow> js_error + message list" where
  "run_events assistantMsgId [] prev = Inr prev"
| "run_events assistantMsgId (data # rest) prev =
     (case handle_event assistantMsgId data prev of
        Inl e \<Rightarrow> Inl e
      | Inr prev' \<Rightarrow> run_events assistantMsgId rest prev')"

subsection \<open>Vocabulary for the properties of the decoder\<close>

text \<open>
  A conversation is well formed for a request when it is not empty and every message with
  the id of the request has a \<^verbatim>\<open>thoughts\<close> list, as the messages \<^verbatim>\<open>sendMessage\<close>
  creates have.
\<close>

definition is_answer :: "event \<Rightarrow> bool" where
  "is_answer e = (case e of Answer _ \<Rightarrow> True | _ \<Rightarrow> False)"

definition well_formed :: "nat \<Rightarrow> message list \<Rightarrow> bool" where
  "well_formed assistantMsgId prev =
     (prev \<noteq> [] \<and> (\<forall>m\<in>set prev. msg_id m = Some assistantMsgId \<longrightarrow> thoughts m \<noteq> None))"

definition details_distinct :: "message list \<Rightarrow> bool" where
  "details_distinct prev = (\<forall>m\<in>set prev. \<forall>i. distinct (step_details m i))"

definition patched :: "(message \<Rightarrow> message) \<Rightarrow> message list \<Rightarrow> message list" where
  "patched f prev =
     (if role (last prev) = Assistant
      then map (\<lambda>m. if msg_id m = msg_id (last prev) then f m else m) prev else prev)"

definition cursors :: "js_error + message list \<Rightarrow> js_error + int option list" where
  "cursors r = map_sum id (map planCompletedIndex) r"

definition contents :: "js_error + message list \<Rightarrow> js_error + string list" where
  "contents r = map_sum id (map content) r"

definition details_of :: "int \<Rightarrow> js_error + message list \<Rightarrow> js_error + string list list" where
  "details_of i r = map_sum id (map (\<lambda>m. step_details m i)) r"

section \<open>Properties of the stream decoder\<close>

lemma map_result_Inr:
  "(\<And>x. x \<in> set xs \<Longrightarrow> f x = Inr (h x)) \<Longrightarrow> map_result f xs = Inr (map h xs)"
  by (induction xs) auto

lemma patch_last_Inr:
  "prev \<noteq> [] \<Longrightarrow>
   patch_last f prev =
     Inr (if role (last prev) = Assistant
          then map (\<lambda>m. if msg_id m = msg_id (last prev) then f m else m) prev else prev)"
  by (cases prev) (simp_all add: patch_last_def Let_def)

lemma on_content_other:
  "\<forall>c. data \<noteq> Thought c \<Longrightarrow> \<forall>c. data \<noteq> Answer c \<Longrightarrow> on_content aid data msg = Inr msg"
  by (cases data) (simp_all add: on_content_def)

lemma content_pass_other:
  "\<forall>c. data \<noteq> Thought c \<Longrightarrow> \<forall>c. data \<noteq> Answer c \<Longrightarrow>
   map_result (on_content aid data) prev = Inr prev"
  using map_result_Inr [of prev "on_content aid data" id] by (simp add: on_content_other)

lemma content_pass_answer:
  "map_result (on_content aid (Answer c)) prev =
     Inr (map (\<lambda>msg. if msg_id msg = Some aid then msg\<lparr>content := c\<rparr> else msg) prev)"
  by (rule map_result_Inr) (simp add: on_content_def)

lemma content_pass_thought:
  "\<forall>m\<in>set prev. msg_id m = Some aid \<longrightarrow> thoughts m \<noteq> None \<Longrightarrow>
   map_result (on_content aid (Thought c)) prev =
     Inr (map (\<lambda>msg. if msg_id msg = Some aid
                      then msg\<lparr>thoughts := Some (case thoughts msg of Some ts \<Rightarrow> ts @ [c] | None \<Rightarrow> [])\<rparr>
                      else msg) prev)"
  by (rule map_result_Inr) (auto simp add: on_content_def split: option.splits)

lemma handle_plan_update:
  "prev \<noteq> [] \<Longrightarrow>
   handle_event aid (PlanUpdate c) prev = Inr (patched (\<lambda>m. m\<lparr>planCompletedIndex := Some c\<rparr>) prev)"
  by (simp add: handle_event_def on_plan_update_def patch_last_Inr content_pass_other patched_def)

lemma handle_plan:
  "prev \<noteq> [] \<Longrightarrow>
   handle_event aid (Plan steps c) prev =
     Inr (patched (\<lambda>m. m\<lparr>plan := Some steps, planCompletedIndex := Some c\<rparr>) prev)"
  by (simp add: handle_event_def on_plan_def patch_last_Inr content_pass_other patched_def)

lemma handle_step_detail:
  "prev \<noteq> [] \<Longrightarrow>
   handle_event aid (StepDetail i d) prev = Inr (patched (add_detail i d) prev)"
  by (simp add: handle_event_def on_step_detail_def patch_last_Inr content_pass_other patched_def)

lemma handle_answer:
  "handle_event aid (Answer c) prev =
     Inr (map (\<lambda>msg. if msg_id msg = Some aid then msg\<lparr>content := c\<rparr> else msg) prev)"
  by (simp add: handle_event_def content_pass_answer)

lemma handle_other: "handle_event aid Other prev = Inr prev"
  by (simp add: handle_event_def content_pass_other)

lemma handle_thought:
  "\<forall>m\<in>set prev. msg_id m = Some aid \<longrightarrow> thoughts m \<noteq> None \<Longrightarrow>
   handle_event aid (Thought c) prev =
     Inr (map (\<lambda>msg. if msg_id msg = Some aid
                      then msg\<lparr>thoughts := Some (case thoughts msg of Some ts \<Rightarrow> ts @ [c] | None \<Rightarrow> [])\<rparr>
                      else msg) prev)"
  by (simp add: handle_event_def content_pass_thought)

lemma patched_props:
  assumes "prev \<noteq> []" "\<And>m. msg_id (f m) = msg_id m" "\<And>m. role (f m) = role m"
  shows "patched f prev \<noteq> []" "map msg_id (patched f prev) = map msg_id prev"
    "map role (patched f prev) = map role prev"
    "role (last prev) = Assistant \<Longrightarrow> last (patched f prev) = f (last prev)"
    "role (last prev) \<noteq> Assistant \<Longrightarrow> patched f prev = prev"
  using assms by (auto simp add: patched_def last_map)

lemma add_detail_fields [simp]:
  "msg_id (add_detail i d m) = msg_id m" "role (add_detail i d m) = role m"
  "content (add_detail i d m) = content m" "thoughts (add_detail i d m) = thoughts m"
  by (simp_all add: add_detail_def Let_def)

lemma step_details_add_detail:
  "step_details (add_detail i d m) j =
     (if j = i \<and> d \<notin> set (step_details m i) then step_details m i @ [d] else step_details m j)"
  by (auto simp add: add_detail_def step_details_def Let_def split: option.splits)

lemma add_detail_present: "d \<in> set (step_details m i) \<Longrightarrow> add_detail i d m = m"
  by (auto simp add: add_detail_def step_details_def Let_def split: option.splits)

lemma add_detail_distinct:
  "distinct (step_details m j) \<Longrightarrow> distinct (step_details (add_detail i d m) j)"
  by (cases "j = i") (simp_all add: step_details_add_detail)

lemma set_patched: "set (patched f prev) \<subseteq> set prev \<union> f ` set prev"
  by (auto simp add: patched_def)

lemma patched_pred:
  "\<forall>m\<in>set prev. P m \<Longrightarrow> (\<And>m. P m \<Longrightarrow> P (f m)) \<Longrightarrow> \<forall>m\<in>set (patched f prev). P m"
  using set_patched [of f prev] by auto

lemma map_result_D:
  "map_result f xs = Inr ys \<Longrightarrow> \<forall>y\<in>set ys. \<exists>x\<in>set xs. f x = Inr y"
proof (induction xs arbitrary: ys)
  case Nil
  then show ?case by simp
next
  case (Cons x xs)
  then obtain y ys' where "f x = Inr y" "map_result f xs = Inr ys'" "ys = y # ys'"
    by (auto split: sum.splits)
  with Cons.IH [of ys'] show ?case by simp
qed

lemma on_content_details:
  "on_content aid data m = Inr m' \<Longrightarrow> step_details m' i = step_details m i"
  by (cases data) (auto simp add: on_content_def step_details_def split: if_splits option.splits)

lemma content_pass_details:
  assumes "map_result (on_content aid data) prev = Inr msgs" "details_distinct prev"
  shows "details_distinct msgs"
proof -
  have rel: "\<forall>y\<in>set msgs. \<exists>x\<in>set prev. on_content aid data x = Inr y"
    using assms(1) by (rule map_result_D)
  show ?thesis
    unfolding details_distinct_def
  proof (intro ballI allI)
    fix m' i assume "m' \<in> set msgs"
    then obtain m where "m \<in> set prev" "on_content aid data m = Inr m'"
      using rel by blast
    then show "distinct (step_details m' i)"
      using assms(2) on_content_details [of aid data m m' i] by (simp add: details_distinct_def)
  qed
qed

lemma patch_last_details:
  assumes "patch_last f prev = Inr msgs" "details_distinct prev"
    and "\<And>m j. distinct (step_details m j) \<Longrightarrow> distinct (step_details (f m) j)"
  shows "details_distinct msgs"
proof -
  have ne: "prev \<noteq> []" using assms(1) by (auto simp add: patch_last_def)
  then have "msgs = patched f prev"
    using assms(1) by (simp add: patch_last_Inr patched_def)
  moreover have "\<forall>m\<in>set (patched f prev). \<forall>j. distinct (step_details m j)"
    by (rule patched_pred) (use assms(2,3) in \<open>auto simp add: details_distinct_def\<close>)
  ultimately show ?thesis by (simp add: details_distinct_def)
qed

lemma handle_event_details:
  assumes "handle_event aid e prev = Inr msgs" "details_distinct prev"
  shows "details_distinct msgs"
proof -
  obtain mid where mid: "(case e of
              Plan steps completed \<Rightarrow> on_plan steps completed prev
            | PlanUpdate completed \<Rightarrow> on_plan_update completed prev
            | StepDetail step_index detail \<Rightarrow> on_step_detail step_index detail prev
            | _ \<Rightarrow> Inr prev) = Inr mid" and fin: "map_result (on_content aid e) mid = Inr msgs"
    using assms(1) by (auto simp add: handle_event_def split: sum.splits)
  have "details_distinct mid"
  proof (cases e)
    case (Plan steps c)
    then show ?thesis using mid assms(2)
      by (auto simp add: on_plan_def step_details_def intro: patch_last_details)
  next
    case (PlanUpdate c)
    then show ?thesis using mid assms(2)
      by (auto simp add: on_plan_update_def step_details_def intro: patch_last_details)
  next
    case (StepDetail i d)
    then show ?thesis using mid assms(2)
      by (auto simp add: on_step_detail_def intro: patch_last_details add_detail_distinct)
  qed (use mid assms(2) in auto)
  then show ?thesis using fin by (rule content_pass_details [rotated])
qed

lemma run_events_details:
  "run_events aid evs prev = Inr msgs \<Longrightarrow> details_distinct prev \<Longrightarrow> details_distinct msgs"
proof (induction evs arbitrary: prev)
  case Nil
  then show ?case by simp
next
  case (Cons e evs)
  then show ?case by (auto split: sum.splits dest: handle_event_details)
qed

lemma map_keeps:
  assumes "well_formed aid prev" "\<And>m. msg_id (g m) = msg_id m"
    "\<And>m. thoughts m \<noteq> None \<Longrightarrow> thoughts (g m) \<noteq> None"
  shows "well_formed aid (map g prev)" "map msg_id (map g prev) = map msg_id prev"
  using assms by (simp_all add: well_formed_def)

lemma patched_keeps:
  assumes "well_formed aid prev" "\<And>m. msg_id (f m) = msg_id m"
    "\<And>m. thoughts (f m) = thoughts m" "\<And>m. content (f m) = content m"
  shows "well_formed aid (patched f prev)" "map msg_id (patched f prev) = map msg_id prev"
    "map content (patched f prev) = map content prev"
proof -
  have "\<forall>m\<in>set (patched f prev). msg_id m = Some aid \<longrightarrow> thoughts m \<noteq> None"
    by (rule patched_pred) (use assms in \<open>simp_all add: well_formed_def\<close>)
  moreover have "patched f prev \<noteq> []" using assms(1) by (simp add: patched_def well_formed_def)
  ultimately show "well_formed aid (patched f prev)" by (simp add: well_formed_def)
  show "map msg_id (patched f prev) = map msg_id prev" using assms(2) by (simp add: patched_def)
  show "map content (patched f prev) = map content prev" using assms(4) by (simp add: patched_def)
qed

lemma handle_event_total:
  assumes "well_formed aid prev"
  shows "\<exists>msgs. handle_event aid e prev = Inr msgs \<and> well_formed aid msgs
           \<and> map msg_id msgs = map msg_id prev
           \<and> (\<not> is_answer e \<longrightarrow> map content msgs = map content prev)"
proof -
  have ne: "prev \<noteq> []" and th: "\<forall>m\<in>set prev. msg_id m = Some aid \<longrightarrow> thoughts m \<noteq> None"
    using assms by (simp_all add: well_formed_def)
  show ?thesis
  proof (cases e)
    case (Plan steps c)
    show ?thesis unfolding Plan handle_plan [OF ne]
      using patched_keeps [OF assms, of "\<lambda>m. m\<lparr>plan := Some steps, planCompletedIndex := Some c\<rparr>"]
      by simp
  next
    case (PlanUpdate c)
    show ?thesis unfolding PlanUpdate handle_plan_update [OF ne]
      using patched_keeps [OF assms, of "\<lambda>m. m\<lparr>planCompletedIndex := Some c\<rparr>"] by simp
  next
    case (StepDetail i d)
    show ?thesis unfolding StepDetail handle_step_detail [OF ne]
      using patched_keeps [OF assms, of "add_detail i d"] by simp
  next
    case (Thought c)
    let ?g = "\<lambda>msg. if msg_id msg = Some aid
                      then msg\<lparr>thoughts := Some (case thoughts msg of Some ts \<Rightarrow> ts @ [c] | None \<Rightarrow> [])\<rparr>
                      else msg"
    have "map content (map ?g prev) = map content prev" by simp
    then show ?thesis unfolding Thought handle_thought [OF th]
      using map_keeps [OF assms, of ?g] by simp
  next
    case (Answer c)
    show ?thesis unfolding Answer handle_answer
      using map_keeps [OF assms, of "\<lambda>msg. if msg_id msg = Some aid then msg\<lparr>content := c\<rparr> else msg"]
      by (simp add: is_answer_def)
  next
    case Other
    then show ?thesis using assms by (simp add: handle_other)
  qed
qed

lemma run_events_total:
  "well_formed aid prev \<Longrightarrow>
   \<exists>msgs. run_events aid evs prev = Inr msgs \<and> well_formed aid msgs
     \<and> map msg_id msgs = map msg_id prev
     \<and> ((\<forall>e\<in>set evs. \<not> is_answer e) \<longrightarrow> map content msgs = map content prev)"
proof (induction evs arbitrary: prev)
  case Nil
  then show ?case by simp
next
  case (Cons e evs)
  obtain mid where mid: "handle_event aid e prev = Inr mid" "well_formed aid mid"
    "map msg_id mid = map msg_id prev" "\<not> is_answer e \<longrightarrow> map content mid = map content prev"
    using handle_event_total [OF Cons.prems, of e] by blast
  obtain msgs where msgs: "run_events aid evs mid = Inr msgs" "well_formed aid msgs"
    "map msg_id msgs = map msg_id mid"
    "(\<forall>e\<in>set evs. \<not> is_answer e) \<longrightarrow> map content msgs = map content mid"
    using Cons.IH [OF mid(2)] by blast
  have "run_events aid (e # evs) prev = Inr msgs" using mid(1) msgs(1) by simp
  moreover have "map msg_id msgs = map msg_id prev" using mid(3) msgs(3) by simp
  moreover have "(\<forall>e'\<in>set (e # evs). \<not> is_answer e') \<longrightarrow> map content msgs = map content prev"
    using mid(4) msgs(4) by simp
  ultimately show ?case using msgs(2) by blast
qed

lemma run_events_append:
  "run_events aid (xs @ ys) prev =
     (case run_events aid xs prev of Inl e \<Rightarrow> Inl e | Inr mid \<Rightarrow> run_events aid ys mid)"
  by (induction xs arbitrary: prev) (auto split: sum.splits)

lemma patched_last:
  "prev \<noteq> [] \<Longrightarrow> role (last prev) = Assistant \<Longrightarrow> last (patched f prev) = f (last prev)"
  by (simp add: patched_def last_map)

lemma patched_role:
  "prev \<noteq> [] \<Longrightarrow> (\<And>m. role (f m) = role m) \<Longrightarrow>
   patched f prev \<noteq> [] \<and> role (last (patched f prev)) = role (last prev)"
  by (simp add: patched_def last_map)

lemma pair_maps:
  "map f xs = map f ys \<Longrightarrow> map g xs = map g ys \<Longrightarrow>
   map (\<lambda>x. (f x, g x)) xs = map (\<lambda>x. (f x, g x)) ys"
proof (induction xs arbitrary: ys)
  case Nil
  then show ?case by simp
next
  case (Cons x xs)
  then obtain y ys' where ys: "ys = y # ys'" by (cases ys) auto
  with Cons.prems have "f x = f y" "g x = g y" "map f xs = map f ys'" "map g xs = map g ys'"
    by simp_all
  with Cons.IH [of ys'] ys show ?case by simp
qed

lemma same_fields:
  assumes "map f xs = map f ys" "map g xs = map g ys" "x \<in> set xs"
  shows "\<exists>y\<in>set ys. f y = f x \<and> g y = g x"
proof -
  have "set (map (\<lambda>x. (f x, g x)) xs) = set (map (\<lambda>x. (f x, g x)) ys)"
    using pair_maps [OF assms(1,2)] by simp
  then have "(\<lambda>x. (f x, g x)) ` set xs = (\<lambda>x. (f x, g x)) ` set ys"
    by (simp only: set_map)
  then have "(f x, g x) \<in> (\<lambda>x. (f x, g x)) ` set ys" using assms(3) by blast
  then show ?thesis by auto
qed

lemma add_detail_twice: "add_detail i d (add_detail i d m) = add_detail i d m"
proof (cases "d \<in> set (step_details m i)")
  case True
  then show ?thesis by (simp add: add_detail_present)
next
  case False
  then have "d \<in> set (step_details (add_detail i d m) i)"
    by (simp add: step_details_add_detail)
  then show ?thesis by (rule add_detail_present)
qed

lemma patched_twice:
  assumes "\<And>m. f (f m) = f m" "\<And>m. msg_id (f m) = msg_id m" "\<And>m. role (f m) = role m"
    "prev \<noteq> []"
  shows "patched f (patched f prev) = patched f prev"
proof (cases "role (last prev) = Assistant")
  case True
  let ?h = "\<lambda>m. if msg_id m = msg_id (last prev) then f m else m"
  have p: "patched f prev = map ?h prev" using True by (simp add: patched_def)
  have l: "last (map ?h prev) = f (last prev)" using assms(4) by (simp add: last_map)
  have "patched f (map ?h prev) = map ?h (map ?h prev)"
    unfolding patched_def l using True assms(2,3) by simp
  also have "\<dots> = map ?h prev" using assms(1,2) by simp
  finally show ?thesis using p by simp
next
  case False
  then show ?thesis by (simp add: patched_def)
qed

text \<open>
  Claim C2, as the code has it. While the last message of the conversation is an assistant
  message, a \<^verbatim>\<open>plan_update\<close> event stores its \<^verbatim>\<open>completed\<close> value in that message
  whatever the value before was; the events with values 2, 1, 3 leave the cursor at 3.
\<close>

theorem plan_update_overwrites:
  assumes "prev \<noteq> []" "role (last prev) = Assistant"
  shows "(\<exists>msgs. handle_event aid (PlanUpdate c) prev = Inr msgs
            \<and> planCompletedIndex (last msgs) = Some c)
       \<and> (\<exists>msgs. run_events aid [PlanUpdate 2, PlanUpdate 1, PlanUpdate 3] prev = Inr msgs
            \<and> planCompletedIndex (last msgs) = Some 3)"
proof -
  let ?f = "\<lambda>c (m::message). m\<lparr>planCompletedIndex := Some c\<rparr>"
  have step: "handle_event aid (PlanUpdate c) p = Inr (patched (?f c) p)
      \<and> patched (?f c) p \<noteq> [] \<and> role (last (patched (?f c) p)) = Assistant
      \<and> planCompletedIndex (last (patched (?f c) p)) = Some c"
    if "p \<noteq> []" "role (last p) = Assistant" for p c
    using that handle_plan_update [OF that(1), of aid c] patched_role [OF that(1), of "?f c"]
      patched_last [OF that, of "?f c"] by simp
  have single: "\<exists>msgs. handle_event aid (PlanUpdate c) prev = Inr msgs
            \<and> planCompletedIndex (last msgs) = Some c"
    using step [OF assms] by simp
  let ?p1 = "patched (?f 2) prev"
  let ?p2 = "patched (?f 1) ?p1"
  let ?p3 = "patched (?f 3) ?p2"
  have s1: "handle_event aid (PlanUpdate 2) prev = Inr ?p1" "?p1 \<noteq> []" "role (last ?p1) = Assistant"
    using step [OF assms, of 2] by simp_all
  have s2: "handle_event aid (PlanUpdate 1) ?p1 = Inr ?p2" "?p2 \<noteq> []" "role (last ?p2) = Assistant"
    using step [OF s1(2,3), of 1] by simp_all
  have s3: "handle_event aid (PlanUpdate 3) ?p2 = Inr ?p3" "planCompletedIndex (last ?p3) = Some 3"
    using step [OF s2(2,3), of 3] by simp_all
  have "\<exists>msgs. run_events aid [PlanUpdate 2, PlanUpdate 1, PlanUpdate 3] prev = Inr msgs
            \<and> planCompletedIndex (last msgs) = Some 3"
    using s1(1) s2(1) s3 by simp
  with single show ?thesis by blast
qed

text \<open>
  Claim C2 fails as stated: the cursor is not monotonic. After the updates 2 and then 1 the
  cursor of the placeholder message is 1; the lower value was not ignored.
\<close>

theorem plan_update_regresses:
  "cursors (run_events 7 [PlanUpdate 2, PlanUpdate 1] [placeholder 7]) = Inr [Some 1]"
  by (simp add: cursors_def handle_plan_update patched_def placeholder_def)

text \<open>The hypotheses of \<open>plan_update_overwrites\<close> hold for the placeholder of a new answer.\<close>

theorem plan_update_overwrites_witness:
  "[placeholder 7] \<noteq> [] \<and> role (last [placeholder 7]) = Assistant
   \<and> (\<exists>msgs. run_events 7 [PlanUpdate 2, PlanUpdate 1, PlanUpdate 3] [placeholder 7] = Inr msgs
          \<and> planCompletedIndex (last msgs) = Some 3)"
  using plan_update_overwrites [of "[placeholder 7]" 7 3] by (simp add: placeholder_def)

text \<open>
  Claim C5. An \<^verbatim>\<open>answer\<close> event replaces the content of every message that carries the
  id of the running request, and changes nothing else. In a stream whose last
  \<^verbatim>\<open>answer\<close> event carries \<open>c\<close>, whatever comes before it and whatever events of other
  types come after it, the decoder reaches the end without an exception and the content of
  that message is \<open>c\<close>.
\<close>

theorem answer_replaces_content:
  assumes "well_formed aid prev" "\<forall>e\<in>set later. \<not> is_answer e"
  shows "handle_event aid (Answer c) prev =
           Inr (map (\<lambda>msg. if msg_id msg = Some aid then msg\<lparr>content := c\<rparr> else msg) prev)
       \<and> (\<exists>msgs. run_events aid (earlier @ Answer c # later) prev = Inr msgs
            \<and> map msg_id msgs = map msg_id prev
            \<and> (\<forall>m\<in>set msgs. msg_id m = Some aid \<longrightarrow> content m = c))"
proof -
  obtain mid where mid: "run_events aid earlier prev = Inr mid" "well_formed aid mid"
    "map msg_id mid = map msg_id prev"
    using run_events_total [OF assms(1), of earlier] by blast
  let ?ans = "map (\<lambda>msg. if msg_id msg = Some aid then msg\<lparr>content := c\<rparr> else msg) mid"
  have ans: "handle_event aid (Answer c) mid = Inr ?ans" by (rule handle_answer)
  have wf_ans: "well_formed aid ?ans" and ids_ans: "map msg_id ?ans = map msg_id mid"
    using map_keeps [OF mid(2), of "\<lambda>msg. if msg_id msg = Some aid then msg\<lparr>content := c\<rparr> else msg"]
    by simp_all
  obtain msgs where msgs: "run_events aid later ?ans = Inr msgs"
    "map msg_id msgs = map msg_id ?ans" "map content msgs = map content ?ans"
    using run_events_total [OF wf_ans, of later] assms(2) by blast
  have run: "run_events aid (earlier @ Answer c # later) prev = Inr msgs"
    using mid(1) ans msgs(1) by (simp add: run_events_append)
  have "content m = c" if in_msgs: "m \<in> set msgs" and is_aid: "msg_id m = Some aid" for m
  proof -
    obtain m' where "m' \<in> set ?ans" "msg_id m' = msg_id m" "content m' = content m"
      using same_fields [OF msgs(2,3) in_msgs] by blast
    then show ?thesis using is_aid by auto
  qed
  then show ?thesis using run msgs(2) ids_ans mid(3) handle_answer [of aid c prev] by auto
qed

text \<open>\<^verbatim>\<open>Answer("A")\<close> and then \<^verbatim>\<open>Answer("AB")\<close> leave the content \<^verbatim>\<open>"AB"\<close>.\<close>

theorem answer_replaces_content_witness:
  "well_formed 7 [placeholder 7]
   \<and> contents (run_events 7 [Answer ''A'', Answer ''AB''] [placeholder 7]) = Inr [''AB'']"
proof -
  have wf: "well_formed 7 [placeholder 7]" by (simp add: well_formed_def placeholder_def)
  have "\<exists>msgs. run_events 7 ([Answer ''A''] @ Answer ''AB'' # []) [placeholder 7] = Inr msgs
            \<and> map msg_id msgs = map msg_id [placeholder 7]
            \<and> (\<forall>m\<in>set msgs. msg_id m = Some 7 \<longrightarrow> content m = ''AB'')"
    using answer_replaces_content [OF wf, of "[]" "''AB''" "[Answer ''A'']"] by simp
  then obtain msgs where msgs: "run_events 7 [Answer ''A'', Answer ''AB''] [placeholder 7] = Inr msgs"
    "map msg_id msgs = [Some 7]" "\<forall>m\<in>set msgs. msg_id m = Some 7 \<longrightarrow> content m = ''AB''"
    by (auto simp add: placeholder_def)
  from msgs(2) obtain m where "msgs = [m]" "msg_id m = Some 7" by auto
  then show ?thesis using wf msgs(1,3) by (simp add: contents_def)
qed

text \<open>
  Claim C7, as the code has it. A \<^verbatim>\<open>step_detail\<close> event appends its detail to the list
  of its step unless the detail already occurs anywhere in that list; the same event a
  second time changes nothing.
\<close>

theorem step_detail_skips_known:
  assumes "prev \<noteq> []" "role (last prev) = Assistant"
  shows "\<exists>msgs. handle_event aid (StepDetail i d) prev = Inr msgs
           \<and> step_details (last msgs) i =
               (if d \<in> set (step_details (last prev) i) then step_details (last prev) i
                else step_details (last prev) i @ [d])
           \<and> run_events aid [StepDetail i d, StepDetail i d] prev = Inr msgs"
proof -
  let ?p = "patched (add_detail i d) prev"
  have one: "handle_event aid (StepDetail i d) prev = Inr ?p" by (rule handle_step_detail [OF assms(1)])
  have ne: "?p \<noteq> []" using assms(1) by (simp add: patched_def)
  have two: "handle_event aid (StepDetail i d) ?p = Inr ?p"
    using handle_step_detail [OF ne, of aid i d]
      patched_twice [of "add_detail i d" prev, OF add_detail_twice _ _ assms(1)] by simp
  have "last ?p = add_detail i d (last prev)" by (rule patched_last [OF assms])
  then have "step_details (last ?p) i =
               (if d \<in> set (step_details (last prev) i) then step_details (last prev) i
                else step_details (last prev) i @ [d])"
    by (simp add: step_details_add_detail)
  then show ?thesis using one two by simp
qed

text \<open>Two events \<^verbatim>\<open>StepDetail{0, "x"}\<close> in a row leave the single entry \<^verbatim>\<open>"x"\<close>.\<close>

theorem step_detail_skips_known_witness:
  "[placeholder 7] \<noteq> [] \<and> role (last [placeholder 7]) = Assistant
   \<and> details_of 0 (run_events 7 [StepDetail 0 ''x'', StepDetail 0 ''x''] [placeholder 7]) = Inr [[''x'']]"
proof -
  have h: "[placeholder 7] \<noteq> []" "role (last [placeholder 7]) = Assistant"
    by (simp_all add: placeholder_def)
  obtain msgs where msgs: "handle_event 7 (StepDetail 0 ''x'') [placeholder 7] = Inr msgs"
    "step_details (last msgs) 0 =
       (if ''x'' \<in> set (step_details (last [placeholder 7]) 0) then step_details (last [placeholder 7]) 0
        else step_details (last [placeholder 7]) 0 @ [''x''])"
    "run_events 7 [StepDetail 0 ''x'', StepDetail 0 ''x''] [placeholder 7] = Inr msgs"
    using step_detail_skips_known [OF h, of 7 0 "''x''"] by blast
  have "length msgs = 1"
    using msgs(1) by (auto simp add: handle_step_detail patched_def)
  then obtain m where m: "msgs = [m]" by (cases msgs) auto
  have "step_details m 0 = [''x'']"
    using msgs(2) m by (simp add: step_details_def placeholder_def)
  then show ?thesis using h msgs(3) m by (simp add: details_of_def)
qed

text \<open>
  Claim C7 fails as stated: the comparison is not with the last entry alone. After the
  details \<^verbatim>\<open>"x"\<close> and \<^verbatim>\<open>"y"\<close>, a second \<^verbatim>\<open>"x"\<close> differs from the last entry
  and is still not appended.
\<close>

theorem step_detail_not_only_last:
  "details_of 0 (run_events 7 [StepDetail 0 ''x'', StepDetail 0 ''y'', StepDetail 0 ''x'']
       [placeholder 7]) = Inr [[''x'', ''y'']]
   \<and> last [''x'', ''y''] \<noteq> ''x''"
  by (simp add: details_of_def handle_step_detail patched_def placeholder_def add_detail_def
      step_details_def)

text \<open>
  Claim C10. A detail that occurs anywhere in the list of its step leaves the message as it
  is, and so the lists stay free of duplicates: from a conversation whose lists have no
  duplicates, every stream of events the decoder gets through leaves lists without
  duplicates, and from a well-formed conversation the decoder gets through every stream.
\<close>

theorem details_never_repeat:
  assumes "details_distinct prev"
  shows "(d \<in> set (step_details m i) \<longrightarrow> add_detail i d m = m)
       \<and> (\<forall>msgs. run_events aid evs prev = Inr msgs \<longrightarrow> details_distinct msgs)
       \<and> (well_formed aid prev \<longrightarrow> (\<exists>msgs. run_events aid evs prev = Inr msgs))"
  using assms add_detail_present [of d m i] run_events_details [of aid evs prev]
    run_events_total [of aid prev evs] by blast

text \<open>The placeholder of a new answer has no details, and the stream \<open>x, y, x\<close> runs through.\<close>

theorem details_never_repeat_witness:
  "details_distinct [placeholder 7] \<and> well_formed 7 [placeholder 7]
   \<and> (\<exists>msgs. run_events 7 [StepDetail 0 ''x'', StepDetail 0 ''y'', StepDetail 0 ''x''] [placeholder 7]
          = Inr msgs \<and> details_distinct msgs)"
proof -
  have d: "details_distinct [placeholder 7]"
    by (simp add: details_distinct_def step_details_def placeholder_def)
  have wf: "well_formed 7 [placeholder 7]" by (simp add: well_formed_def placeholder_def)
  show ?thesis
    using d wf details_never_repeat [OF d, of "''x''" "placeholder 7" 0 7
        "[StepDetail 0 ''x'', StepDetail 0 ''y'', StepDetail 0 ''x'']"]
    by blast
qed

section \<open>Properties of the citation extractor\<close>

lemma match_here_SomeD:
  "match_here re off s = Some m \<Longrightarrow> (\<exists>k. m_text m = take k s) \<and> m_index m = off"
  by (auto simp add: match_here_def split: list.splits)

lemma take_drop_pred:
  "xs = take k (c # cs) \<Longrightarrow> xs \<noteq> [] \<Longrightarrow> xs @ drop (length xs - 1) cs = c # cs"
proof -
  assume a: "xs = take k (c # cs)" and ne: "xs \<noteq> []"
  then obtain k' where k: "k = Suc k'" by (cases k) auto
  have "xs = c # take k' cs" using a k by simp
  then show ?thesis by (cases "k' \<le> length cs") (simp_all add: min_def)
qed

lemma scan_replace_id:
  "\<forall>m\<in>set (find_all re off skip s). cb m = m_text m \<Longrightarrow>
   scan_replace re cb off skip s = drop skip s"
proof (induction s arbitrary: off skip)
  case Nil
  show ?case
  proof (cases "match_here re off []")
    case None
    then show ?thesis by simp
  next
    case (Some m)
    from match_here_SomeD [OF Some] obtain k where "m_text m = take k []" by blast
    then have "m_text m = []" by simp
    moreover have "cb m = m_text m" if "skip = 0"
    proof -
      have "find_all re off skip [] = [m]" using that Some by simp
      with Nil.prems show ?thesis by (simp del: find_all.simps)
    qed
    ultimately show ?thesis using Some by simp
  qed
next
  case (Cons c cs)
  show ?case
  proof (cases "0 < skip")
    case True
    then obtain k where k: "skip = Suc k" by (cases skip) auto
    with Cons.prems have "\<forall>m\<in>set (find_all re (Suc off) k cs). cb m = m_text m" by simp
    from Cons.IH [OF this] k show ?thesis by simp
  next
    case False
    then have sk: "skip = 0" by simp
    show ?thesis
    proof (cases "match_here re off (c # cs)")
      case None
      with Cons.prems sk have "\<forall>m\<in>set (find_all re (Suc off) 0 cs). cb m = m_text m" by simp
      from Cons.IH [OF this] None sk show ?thesis by simp
    next
      case (Some m)
      with Cons.prems sk have cbm: "cb m = m_text m"
        and rest: "\<forall>m'\<in>set (find_all re (Suc off) (length (m_text m) - 1) cs). cb m' = m_text m'"
        by simp_all
      obtain k where k: "m_text m = take k (c # cs)" using match_here_SomeD [OF Some] by blast
      show ?thesis
      proof (cases "m_text m = []")
        case True
        with rest have "\<forall>m'\<in>set (find_all re (Suc off) 0 cs). cb m' = m_text m'" by simp
        from Cons.IH [OF this] Some sk cbm True show ?thesis by simp
      next
        case False
        from Cons.IH [OF rest] Some sk cbm False take_drop_pred [OF k False]
        show ?thesis by simp
      qed
    qed
  qed
qed

lemma js_replace_id:
  "\<forall>m\<in>set (find_all re 0 0 s). cb m = m_text m \<Longrightarrow> js_replace re cb s = s"
  using scan_replace_id [of re 0 0 s cb] by (simp add: js_replace_def)

text \<open>
  Claim C1 at its own example. The bracketed citation \<^verbatim>\<open>[[Verse: Bala Kanda 4:5]]\<close> names a
  canto and has the two integers 4 and 5, and the first pass resolves it to chapter 5 and the
  whole-chapter verse 0: \<^verbatim>\<open>isIndexed\<close> is computed whether or not a canto name was found,
  \<^verbatim>\<open>Kanda 4\<close> counts as a canto index, and the chapter is dropped from the numbers. Without
  the word \<^verbatim>\<open>Kanda\<close> before the chapter the same citation resolves to (Bala, 4, 5).
\<close>

theorem bracket_named_kanda_loses_chapter:
  "bracket_pass ''[[Verse: Bala Kanda 4:5]]'' = ''[[CIT:Bala Kanda|5|0]]''
   \<and> citations ''[[Verse: Bala Kanda 4:5]]'' = [(''Bala Kanda'', ''5'', ''0'')]
   \<and> extract_citations ''[[Verse: Bala Kanda 4:5]]''
       = ''[Bala Kanda 5:0](http://citation/Bala%20Kanda/5/0)''
   \<and> citations ''[[Verse: Bala 4:5]]'' = [(''Bala Kanda'', ''4'', ''5'')]"
  by code_simp

text \<open>
  Claim C8 at the example of the code's own comment. \<^verbatim>\<open>[[Verse: Aranya Kanda 9]]\<close> has the
  one integer 9 and resolves to chapter 1, verse 1: the 9 is taken for a canto index and
  dropped, and no number is left. Without the word \<^verbatim>\<open>Kanda\<close> it resolves to chapter 9,
  verse 0.
\<close>

theorem bracket_single_number_after_kanda:
  "bracket_pass ''[[Verse: Aranya Kanda 9]]'' = ''[[CIT:Aranya Kanda|1|1]]''
   \<and> citations ''[[Verse: Aranya Kanda 9]]'' = [(''Aranya Kanda'', ''1'', ''1'')]
   \<and> citations ''[[Verse: Aranya 9]]'' = [(''Aranya Kanda'', ''9'', ''0'')]"
  by code_simp





text \<open>
  The count is taken on the text the first pass leaves, where a bracketed citation is
  already a marker: an occurrence of \<^verbatim>\<open>:1\<close> inside a bracketed citation is not counted.
  This message has three occurrences, the text entering the second pass has one, and the
  naked-form match with verse 1 is converted.
\<close>

lemma colon_one_in_bracketed_citation_not_counted:
  "length (js_match_all COLON_ONE_REGEX ''[[Verse: Bala 5:1 :1]] Bala Kanda 2:1'') = 3
   \<and> bracket_pass ''[[Verse: Bala 5:1 :1]] Bala Kanda 2:1'' = ''[[CIT:Bala Kanda|5|1]] Bala Kanda 2:1''
   \<and> length (js_match_all COLON_ONE_REGEX (bracket_pass ''[[Verse: Bala 5:1 :1]] Bala Kanda 2:1'')) = 1
   \<and> citations ''[[Verse: Bala 5:1 :1]] Bala Kanda 2:1''
     = [(''Bala Kanda'', ''5'', ''1''), (''Bala Kanda'', ''2'', ''1'')]"
  by code_simp




text \<open>
  Nor does it take a literal marker: a naked-form match may span a line break, which the
  bracketed form may not, so the first run can close a bracketed citation for the second.
\<close>

lemma newline_example:
  "extract_citations (''[[Verse: Bala'' @ [CHR 0x0A] @ ''Kanda 4:5 ]]'')
     = ''[[Verse: [Bala Kanda 4:5](http://citation/Bala%20Kanda/4/5) ]]''
  \<and> extract_citations ''[[Verse: [Bala Kanda 4:5](http://citation/Bala%20Kanda/4/5) ]]''
     = ''[Bala Kanda 5:20](http://citation/Bala%20Kanda/5/20)''"
  by code_simp

lemma settled_fixed_point:
  assumes "settled text"
  shows "extract_citations text = text"
proof -
  have b: "bracket_pass text = text"
    unfolding bracket_pass_def by (rule js_replace_id) (use assms in \<open>simp add: settled_def\<close>)
  have n: "naked_pass text = text"
    unfolding naked_pass_def
    by (rule js_replace_id) (use assms in \<open>auto simp add: settled_def naked_citation_def\<close>)
  have c: "sarga_pass text = text"
    unfolding sarga_pass_def
    by (rule js_replace_id) (use assms in \<open>auto simp add: settled_def sarga_citation_def\<close>)
  have f: "final_pass text = text"
    unfolding final_pass_def by (rule js_replace_id) (use assms in \<open>simp add: settled_def\<close>)
  show ?thesis by (simp add: extract_citations_def markers_def b n c f)
qed

subsection \<open>The links of the final pass are settled\<close>

text \<open>
  The link written for a named book, a chapter number and a verse number is a fixed point of
  the pipeline, for each of the seven books and all numbers. The proof follows the four
  scans over the link. First the one match of the naked pattern, at the label.
\<close>

lemma seqs_Nil: "ms (seqs []) st = [st]"
  by (simp add: seqs_def)

lemma seqs_Cons: "ms (seqs (r # rs)) st = concat (map (ms (seqs rs)) (ms r st))"
  by (simp add: seqs_def)

lemma concat_map_concat_map:
  "concat (map f (concat (map h xs))) = concat (map (\<lambda>x. concat (map f (h x))) xs)"
  by (induction xs) simp_all

lemma seqs_append: "ms (seqs (xs @ ys)) st = concat (map (ms (seqs ys)) (ms (seqs xs) st))"
proof (induction xs arbitrary: st)
  case Nil
  show ?case by (simp add: seqs_Nil)
next
  case (Cons r xs)
  have "ms (seqs ((r # xs) @ ys)) st = concat (map (ms (seqs (xs @ ys))) (ms r st))"
    by (simp add: seqs_Cons)
  also have "\<dots> = concat (map (\<lambda>y. concat (map (ms (seqs ys)) (ms (seqs xs) y))) (ms r st))"
  proof -
    have "ms (seqs (xs @ ys)) = (\<lambda>y. concat (map (ms (seqs ys)) (ms (seqs xs) y)))"
      by (rule ext) (rule Cons.IH)
    then show ?thesis by (simp only:)
  qed
  also have "\<dots> = concat (map (ms (seqs ys)) (concat (map (ms (seqs xs)) (ms r st))))"
    by (simp add: concat_map_concat_map)
  also have "\<dots> = concat (map (ms (seqs ys)) (ms (seqs (r # xs)) st))"
    by (simp add: seqs_Cons)
  finally show ?case .
qed

lemma fm_seqs_Nil: "first_match (seqs []) st st"
  by (simp add: first_match_def seqs_Nil)

lemma fm_seqs_Cons:
  "first_match r st y \<Longrightarrow> first_match (seqs rs) y x \<Longrightarrow> first_match (seqs (r # rs)) st x"
  by (auto simp add: first_match_def seqs_Cons)

lemma fm_Grp:
  "first_match a (g, s) (g', s') \<Longrightarrow>
   first_match (Grp n a) (g, s) ((n, take (length s - length s') s) # g', s')"
  by (auto simp add: first_match_def)

lemma fm_Chr: "c \<in> set cs \<Longrightarrow> first_match (Chr cs) (g, c # X) (g, X)"
  by (simp add: first_match_def)

lemma digit_step: "d \<in> set ''0123456789'' \<Longrightarrow> ms digit (g, d # X) = [(g, X)]"
  by (simp add: digit_def)

lemma nondigit_start_ms: "nondigit_start R \<Longrightarrow> ms digit (g, R) = []"
  by (cases R) (simp_all add: nondigit_start_def digit_def)

lemma digits_Cons: "digits s \<Longrightarrow> \<exists>d ds. s = d # ds \<and> d \<in> set ''0123456789''"
  by (cases s) (auto simp add: digits_def)

lemma fm_star_digit:
  "set ds \<subseteq> set ''0123456789'' \<Longrightarrow> ms digit (g, X) = [] \<Longrightarrow>
   first_match (Star digit) (g, ds @ X) (g, X)"
proof (induction ds)
  case Nil
  then show ?case by (simp add: first_match_def)
next
  case (Cons d ds)
  then have "first_match (Star digit) (g, ds @ X) (g, X)" by simp
  then obtain others where "ms (Star digit) (g, ds @ X) = (g, X) # others" by (auto simp add: first_match_def)
  moreover have "ms digit (g, d # ds @ X) = [(g, ds @ X)]" using Cons.prems by (simp add: digit_step)
  ultimately show ?case by (simp add: first_match_def)
qed

lemma fm_plus_digit:
  assumes "digits ds" "ms digit (g, X) = []"
  shows "first_match (plus digit) (g, ds @ X) (g, X)"
proof -
  obtain d ds' where ds: "ds = d # ds'" "d \<in> set ''0123456789''" "set ds' \<subseteq> set ''0123456789''"
    using assms(1) by (cases ds) (auto simp add: digits_def)
  obtain others where "ms (Star digit) (g, ds' @ X) = (g, X) # others"
    using fm_star_digit [OF ds(3) assms(2)] by (auto simp add: first_match_def)
  then show ?thesis using ds by (simp add: first_match_def plus_def digit_step)
qed

lemma fm_grp_digits:
  assumes "digits ds" "ms digit (g, X) = []"
  shows "first_match (Grp n (plus digit)) (g, ds @ X) ((n, ds) # g, X)"
  using fm_Grp [OF fm_plus_digit [OF assms], of n] by simp

lemma digit_not_ws:
  "d \<in> set ''0123456789'' \<Longrightarrow> d \<notin> set [CHR 0x09, CHR 0x0A, CHR 0x0B, CHR 0x0C, CHR 0x0D, CHR 0x20, CHR 0xA0]"
  by auto

lemma kanda_prefix:
  assumes "K \<in> set kandaList" "d \<in> set ''0123456789''"
  shows "ms (seqs [Grp 1 kanda_names, Star ws, lit_i ''Kanda'', Star ws]) ([], K @ '' Kanda '' @ d # Y)
       = [([(1, K)], d # Y), ([(1, K)], CHR '' '' # d # Y)]"
proof -
  have nws: "d \<notin> set [CHR 0x09, CHR 0x0A, CHR 0x0B, CHR 0x0C, CHR 0x0D, CHR 0x20, CHR 0xA0]"
    by (rule digit_not_ws [OF assms(2)])
  have K: "K = ''Bala'' \<or> K = ''Ayodhya'' \<or> K = ''Aranya'' \<or> K = ''Kishkindha'' \<or> K = ''Sundara''
      \<or> K = ''Yuddha'' \<or> K = ''Uttara''"
    using assms(1) by (simp add: kandaList_def)
  show ?thesis
    using K nws
    by (elim disjE)
       (simp_all add: seqs_def kanda_names_def kandaList_def lit_i_def ci_class_def lowers_def uppers_def
          ws_def)
qed

lemma naked_regex_split:
  "NAKED_CITATION_REGEX =
     seqs ([Grp 1 kanda_names, Star ws, lit_i ''Kanda'', Star ws]
           @ [Grp 2 (plus digit), Chr '': '', Grp 3 (plus digit)])"
  by (simp add: NAKED_CITATION_REGEX_def)

lemma match_here_first:
  "ms re ([], xs @ R) = (g, R) # others \<Longrightarrow>
   match_here re off (xs @ R) = Some \<lparr>m_text = xs, m_groups = g, m_index = off\<rparr>"
  by (simp add: match_here_def)

lemma naked_tail_match:
  assumes "digits s" "digits v" "nondigit_start R"
  shows "first_match (seqs [Grp 2 (plus digit), Chr '': '', Grp 3 (plus digit)])
           (g, s @ CHR '':'' # v @ R) ((3, v) # (2, s) # g, R)"
proof -
  have a: "first_match (Grp 2 (plus digit)) (g, s @ CHR '':'' # v @ R) ((2, s) # g, CHR '':'' # v @ R)"
    by (rule fm_grp_digits [OF assms(1)]) (simp add: digit_def)
  have b: "first_match (Chr '': '') ((2, s) # g, CHR '':'' # v @ R) ((2, s) # g, v @ R)"
    by (rule fm_Chr) simp
  have c: "first_match (Grp 3 (plus digit)) ((2, s) # g, v @ R) ((3, v) # (2, s) # g, R)"
    by (rule fm_grp_digits [OF assms(2) nondigit_start_ms [OF assms(3)]])
  show ?thesis
    by (rule fm_seqs_Cons [OF a fm_seqs_Cons [OF b fm_seqs_Cons [OF c fm_seqs_Nil]]])
qed

lemma naked_match:
  assumes "K \<in> set kandaList" "digits s" "digits v" "nondigit_start R"
  shows "match_here NAKED_CITATION_REGEX off (K @ '' Kanda '' @ s @ CHR '':'' # v @ R)
       = Some \<lparr>m_text = K @ '' Kanda '' @ s @ CHR '':'' # v,
               m_groups = [(3, v), (2, s), (1, K)], m_index = off\<rparr>"
proof -
  obtain d ds where s: "s = d # ds" "d \<in> set ''0123456789''" using digits_Cons [OF assms(2)] by blast
  let ?T = "seqs [Grp 2 (plus digit), Chr '': '', Grp 3 (plus digit)]"
  let ?text = "K @ '' Kanda '' @ s @ CHR '':'' # v @ R"
  obtain others where others: "ms ?T ([(1, K)], s @ CHR '':'' # v @ R) = ([(3, v), (2, s), (1, K)], R) # others"
    using naked_tail_match [OF assms(2,3,4), of "[(1, K)]"] by (auto simp add: first_match_def)
  have "ms NAKED_CITATION_REGEX ([], ?text)
      = concat (map (ms ?T) [([(1, K)], d # ds @ CHR '':'' # v @ R),
                              ([(1, K)], CHR '' '' # d # ds @ CHR '':'' # v @ R)])"
    unfolding naked_regex_split seqs_append
    using kanda_prefix [OF assms(1) s(2), of "ds @ CHR '':'' # v @ R"] s(1) by simp
  then have "\<exists>others'. ms NAKED_CITATION_REGEX ([], ?text) = ([(3, v), (2, s), (1, K)], R) # others'"
    using others s(1) by simp
  then obtain others' where "ms NAKED_CITATION_REGEX ([], ?text) = ([(3, v), (2, s), (1, K)], R) # others'"
    by blast
  then have "ms NAKED_CITATION_REGEX ([], (K @ '' Kanda '' @ s @ CHR '':'' # v) @ R)
      = ([(3, v), (2, s), (1, K)], R) # others'"
    by simp
  from match_here_first [OF this, of off] show ?thesis by simp
qed

text \<open>How a scan moves over a failure, over a match, and over a text without brackets.\<close>

lemma match_here_None: "ms re ([], X) = [] \<Longrightarrow> match_here re off X = None"
  by (simp add: match_here_def)

lemma find_all_fail:
  "ms re ([], c # cs) = [] \<Longrightarrow> find_all re off 0 (c # cs) = find_all re (Suc off) 0 cs"
  by (simp add: match_here_None)

lemma find_all_end: "ms re ([], []) = [] \<Longrightarrow> find_all re off 0 [] = []"
  by (simp add: match_here_None)

lemma find_all_digits:
  assumes "\<And>d Y. d \<in> set ''0123456789'' \<Longrightarrow> ms re ([], d # Y) = []"
    and "set ds \<subseteq> set ''0123456789''"
  shows "find_all re off 0 (ds @ X) = find_all re (off + length ds) 0 X"
  using assms(2)
proof (induction ds arbitrary: off)
  case Nil
  show ?case by simp
next
  case (Cons d ds)
  have "find_all re off 0 ((d # ds) @ X) = find_all re (Suc off) 0 (ds @ X)"
    using find_all_fail [of re d "ds @ X" off] assms(1) [of d "ds @ X"] Cons.prems by simp
  also have "\<dots> = find_all re (Suc off + length ds) 0 X"
    using Cons.IH [of "Suc off"] Cons.prems by simp
  finally show ?case by simp
qed

lemma find_all_skip:
  "find_all re off (length ys) (ys @ X) = find_all re (off + length ys) 0 X"
  by (induction ys arbitrary: off) simp_all

lemma find_all_match:
  assumes "match_here re off (xs @ X) = Some m" "m_text m = xs" "xs \<noteq> []"
  shows "find_all re off 0 (xs @ X) = m # find_all re (off + length xs) 0 X"
proof -
  obtain c cs where xs: "xs = c # cs" using assms(3) by (cases xs) auto
  have "find_all re off 0 (c # cs @ X) = m # find_all re (Suc off) (length cs) (cs @ X)"
    using assms(1,2) xs by simp
  then show ?thesis using xs find_all_skip [of re "Suc off" cs X] by simp
qed

lemma find_all_absent:
  assumes "\<And>c' Y. c' \<noteq> c \<Longrightarrow> ms re ([], c' # Y) = []" "ms re ([], []) = []" "c \<notin> set X"
  shows "find_all re off 0 X = []"
  using assms(3)
proof (induction X arbitrary: off)
  case Nil
  show ?case by (rule find_all_end [OF assms(2)])
next
  case (Cons a X)
  then have "ms re ([], a # X) = []" using assms(1) [of a X] by auto
  from find_all_fail [OF this, of off] Cons show ?case by simp
qed

lemma bracket_first: "c \<noteq> CHR ''['' \<Longrightarrow> ms BRACKET_CITATION_REGEX (g, c # Y) = []"
  by (simp add: BRACKET_CITATION_REGEX_def seqs_def lit_i_def ci_class_def lowers_def uppers_def)

lemma bracket_second: "c \<noteq> CHR ''['' \<Longrightarrow> ms BRACKET_CITATION_REGEX (g, CHR ''['' # c # Y) = []"
  by (simp add: BRACKET_CITATION_REGEX_def seqs_def lit_i_def ci_class_def lowers_def uppers_def)

lemma bracket_empty: "ms BRACKET_CITATION_REGEX (g, []) = []"
  by (simp add: BRACKET_CITATION_REGEX_def seqs_def lit_i_def ci_class_def lowers_def uppers_def)

lemma marker_first: "c \<noteq> CHR ''['' \<Longrightarrow> ms CIT_MARKER_REGEX (g, c # Y) = []"
  by (simp add: CIT_MARKER_REGEX_def seqs_def lit_def)

lemma marker_second: "c \<noteq> CHR ''['' \<Longrightarrow> ms CIT_MARKER_REGEX (g, CHR ''['' # c # Y) = []"
  by (simp add: CIT_MARKER_REGEX_def seqs_def lit_def)

lemma marker_empty: "ms CIT_MARKER_REGEX (g, []) = []"
  by (simp add: CIT_MARKER_REGEX_def seqs_def lit_def)

lemma bracket_absent_after_one:
  assumes "c \<noteq> CHR ''[''" "CHR ''['' \<notin> set X"
  shows "find_all BRACKET_CITATION_REGEX 0 0 (CHR ''['' # c # X) = []"
proof -
  have "find_all BRACKET_CITATION_REGEX 1 0 (c # X) = []"
    by (rule find_all_absent [where c = "CHR ''[''"]) (use assms in \<open>simp_all add: bracket_first bracket_empty\<close>)
  then show ?thesis
    using find_all_fail [of BRACKET_CITATION_REGEX "CHR ''[''" "c # X" 0] bracket_second [OF assms(1), of "[]" X]
    by simp
qed

lemma marker_absent_after_one:
  assumes "c \<noteq> CHR ''[''" "CHR ''['' \<notin> set X"
  shows "find_all CIT_MARKER_REGEX 0 0 (CHR ''['' # c # X) = []"
proof -
  have "find_all CIT_MARKER_REGEX 1 0 (c # X) = []"
    by (rule find_all_absent [where c = "CHR ''[''"]) (use assms in \<open>simp_all add: marker_first marker_empty\<close>)
  then show ?thesis
    using find_all_fail [of CIT_MARKER_REGEX "CHR ''[''" "c # X" 0] marker_second [OF assms(1), of "[]" X]
    by simp
qed

text \<open>
  Neither citation pattern starts at a digit, nor anywhere in the address of the link. The
  patterns are written out letter by letter for these scans.
\<close>

lemma naked_ms:
  "ms NAKED_CITATION_REGEX =
     ms (seqs [Grp 1 kanda_names, Star ws, lit_i ''Kanda'', Star ws, Grp 2 (plus digit),
               Chr '': '', Grp 3 (plus digit)])"
  by (simp add: NAKED_CITATION_REGEX_def)

lemma sarga_ms:
  "ms SARGA_ONLY_REGEX =
     ms (seqs [Grp 1 kanda_names, Star ws, lit_i ''Kanda'', Star ws,
           opt (seqs [lit_i ''Sarga'', Star ws]), Grp 2 (plus digit),
           NegAhead (seqs [Star ws, Chr '':0123456789''])])"
  by (simp add: SARGA_ONLY_REGEX_def)

lemma names_first:
  "c \<notin> set ''BbAaKkSsYyUu'' \<Longrightarrow> ms (Grp 1 kanda_names) (g, c # Y) = []"
  by (simp add: kanda_names_def kandaList_def lit_i_def seqs_def ci_class_def lowers_def uppers_def)

lemma names_empty: "ms (Grp 1 kanda_names) (g, []) = []"
  by (simp add: kanda_names_def kandaList_def lit_i_def seqs_def ci_class_def lowers_def uppers_def)

lemma digit_not_initial: "d \<in> set ''0123456789'' \<Longrightarrow> d \<notin> set ''BbAaKkSsYyUu''"
  by auto

lemma naked_digit_fail: "d \<in> set ''0123456789'' \<Longrightarrow> ms NAKED_CITATION_REGEX ([], d # Y) = []"
  by (simp only: naked_ms seqs_Cons names_first [OF digit_not_initial]) simp

lemma sarga_digit_fail: "d \<in> set ''0123456789'' \<Longrightarrow> ms SARGA_ONLY_REGEX ([], d # Y) = []"
  by (simp only: sarga_ms seqs_Cons names_first [OF digit_not_initial]) simp

lemma naked_digits:
  "set ds \<subseteq> set ''0123456789'' \<Longrightarrow>
   find_all NAKED_CITATION_REGEX off 0 (ds @ X) = find_all NAKED_CITATION_REGEX (off + length ds) 0 X"
  by (rule find_all_digits [OF naked_digit_fail])

lemma sarga_digits:
  "set ds \<subseteq> set ''0123456789'' \<Longrightarrow>
   find_all SARGA_ONLY_REGEX off 0 (ds @ X) = find_all SARGA_ONLY_REGEX (off + length ds) 0 X"
  by (rule find_all_digits [OF sarga_digit_fail])

lemma kanda_names_explicit:
  "kanda_names =
     Alt (Seq (Chr ''Bb'') (Seq (Chr ''aA'') (Seq (Chr ''lL'') (Seq (Chr ''aA'') Eps))))
       (Alt (Seq (Chr ''Aa'') (Seq (Chr ''yY'') (Seq (Chr ''oO'') (Seq (Chr ''dD'') (Seq (Chr ''hH'') (Seq (Chr ''yY'') (Seq (Chr ''aA'') Eps)))))))
       (Alt (Seq (Chr ''Aa'') (Seq (Chr ''rR'') (Seq (Chr ''aA'') (Seq (Chr ''nN'') (Seq (Chr ''yY'') (Seq (Chr ''aA'') Eps))))))
       (Alt (Seq (Chr ''Kk'') (Seq (Chr ''iI'') (Seq (Chr ''sS'') (Seq (Chr ''hH'') (Seq (Chr ''kK'') (Seq (Chr ''iI'') (Seq (Chr ''nN'') (Seq (Chr ''dD'') (Seq (Chr ''hH'') (Seq (Chr ''aA'') Eps))))))))))
       (Alt (Seq (Chr ''Ss'') (Seq (Chr ''uU'') (Seq (Chr ''nN'') (Seq (Chr ''dD'') (Seq (Chr ''aA'') (Seq (Chr ''rR'') (Seq (Chr ''aA'') Eps)))))))
       (Alt (Seq (Chr ''Yy'') (Seq (Chr ''uU'') (Seq (Chr ''dD'') (Seq (Chr ''dD'') (Seq (Chr ''hH'') (Seq (Chr ''aA'') Eps))))))
       (Seq (Chr ''Uu'') (Seq (Chr ''tT'') (Seq (Chr ''tT'') (Seq (Chr ''aA'') (Seq (Chr ''rR'') (Seq (Chr ''aA'') Eps)))))))))))"
  by (simp add: kanda_names_def kandaList_def lit_i_def seqs_def ci_class_def lowers_def uppers_def)

lemma kanda_word_explicit:
  "lit_i ''Kanda'' = Seq (Chr ''Kk'') (Seq (Chr ''aA'') (Seq (Chr ''nN'') (Seq (Chr ''dD'') (Seq (Chr ''aA'') Eps))))"
  by (simp add: lit_i_def seqs_def ci_class_def lowers_def uppers_def)

lemma sarga_word_explicit:
  "lit_i ''Sarga'' = Seq (Chr ''Ss'') (Seq (Chr ''aA'') (Seq (Chr ''rR'') (Seq (Chr ''gG'') (Seq (Chr ''aA'') Eps))))"
  by (simp add: lit_i_def seqs_def ci_class_def lowers_def uppers_def)

lemmas scan_simps2 = match_here_def seqs_def kanda_names_explicit kanda_word_explicit sarga_word_explicit
  ws_def digit_def plus_def opt_def

lemma kanda_cases:
  "K \<in> set kandaList \<Longrightarrow>
   K = ''Bala'' \<or> K = ''Ayodhya'' \<or> K = ''Aranya'' \<or> K = ''Kishkindha'' \<or> K = ''Sundara''
     \<or> K = ''Yuddha'' \<or> K = ''Uttara''"
  by (simp add: kandaList_def)

lemma naked_url_none:
  assumes "K \<in> set kandaList" "set s \<subseteq> set ''0123456789''" "set v \<subseteq> set ''0123456789''"
  shows "find_all NAKED_CITATION_REGEX off 0
           (''](http://citation/'' @ K @ ''%20Kanda/'' @ s @ ''/'' @ v @ '')'') = []"
  using kanda_cases [OF assms(1)] assms(2,3)
  by (elim disjE) (simp_all add: naked_ms naked_digits scan_simps2)

lemma sarga_url_none:
  assumes "K \<in> set kandaList" "set s \<subseteq> set ''0123456789''" "set v \<subseteq> set ''0123456789''"
  shows "find_all SARGA_ONLY_REGEX off 0
           (''](http://citation/'' @ K @ ''%20Kanda/'' @ s @ ''/'' @ v @ '')'') = []"
  using kanda_cases [OF assms(1)] assms(2,3)
  by (elim disjE) (simp_all add: sarga_ms sarga_digits scan_simps2)

text \<open>
  The chapter-only pattern does not match at the label: whatever digits it takes for the
  chapter, a digit or the colon follows, which its lookahead refuses.
\<close>

lemma star_digit_stop: "ms digit (g, X) = [] \<Longrightarrow> ms (Star digit) (g, X) = [(g, X)]"
  by (subst ms.simps) (simp del: ms.simps)

lemma star_digit_Cons:
  "d \<in> set ''0123456789'' \<Longrightarrow> ms (Star digit) (g, d # W) = ms (Star digit) (g, W) @ [(g, d # W)]"
  by (subst ms.simps) (simp add: digit_step del: ms.simps)

lemma star_digit_elems:
  assumes "set ds \<subseteq> set ''0123456789''" "ms digit (g, X) = []"
    and "e \<in> set (ms (Star digit) (g, ds @ X))"
  shows "fst e = g \<and> (snd e = X \<or> (\<exists>d' W'. snd e = d' # W' \<and> d' \<in> set ''0123456789''))"
  using assms(1,3)
proof (induction ds)
  case Nil
  then show ?case using star_digit_stop [OF assms(2)] by (simp del: ms.simps)
next
  case (Cons d ds)
  have d: "d \<in> set ''0123456789''" and ds: "set ds \<subseteq> set ''0123456789''"
    using Cons.prems(1) by simp_all
  have "e \<in> set (ms (Star digit) (g, ds @ X)) \<or> e = (g, d # ds @ X)"
    using Cons.prems(2) star_digit_Cons [OF d, of g "ds @ X"] by (auto simp del: ms.simps)
  then show ?case
  proof
    assume "e \<in> set (ms (Star digit) (g, ds @ X))"
    from Cons.IH [OF ds this] show ?thesis .
  next
    assume "e = (g, d # ds @ X)"
    then show ?thesis using d by (simp del: ms.simps)
  qed
qed

lemma lookahead_hits:
  assumes "W = CHR '':'' # Z \<or> (\<exists>d' W'. W = d' # W' \<and> d' \<in> set ''0123456789'')"
  shows "ms (seqs [NegAhead (seqs [Star ws, Chr '':0123456789''])]) (g, W) = []"
proof -
  have "ms (seqs [Star ws, Chr '':0123456789'']) (g, W) \<noteq> []"
    using assms
  proof
    assume "W = CHR '':'' # Z"
    then show ?thesis by (simp add: seqs_def ws_def)
  next
    assume "\<exists>d' W'. W = d' # W' \<and> d' \<in> set ''0123456789''"
    then obtain d' W' where W: "W = d' # W'" "d' \<in> set ''0123456789''" by blast
    have a: "ms (Star ws) (g, d' # W') = [(g, d' # W')]"
      using digit_not_ws [OF W(2)] by (simp add: ws_def)
    have b: "ms (Chr '':0123456789'') (g, d' # W') = [(g, W')]" using W(2) by simp
    have "ms (seqs [Star ws, Chr '':0123456789'']) (g, d' # W') = [(g, W')]"
      by (simp only: seqs_Cons seqs_Nil a b list.map concat.simps append.simps)
    then show ?thesis using W(1) by (simp del: ms.simps)
  qed
  then have "ms (NegAhead (seqs [Star ws, Chr '':0123456789''])) (g, W) = []"
    by (simp only: ms.simps if_False)
  then show ?thesis by (simp only: seqs_Cons list.map concat.simps)
qed

lemma digit_not_s: "d \<in> set ''0123456789'' \<Longrightarrow> d \<notin> set ''Ss''"
  by auto

lemma grp_plus_digit:
  "d \<in> set ''0123456789'' \<Longrightarrow>
   ms (Grp n (plus digit)) (g, d # W)
     = map (\<lambda>(g', s'). ((n, take (length (d # W) - length s') (d # W)) # g', s'))
         (ms (Star digit) (g, W))"
proof -
  assume d: "d \<in> set ''0123456789''"
  have "ms (plus digit) (g, d # W) = ms (Star digit) (g, W)"
    unfolding plus_def by (simp only: ms.simps(4) digit_step [OF d] list.map concat.simps append_Nil2)
  then show ?thesis by (simp only: ms.simps(8))
qed

lemma sarga_tail_fail:
  assumes "d \<in> set ''0123456789''" "set ds \<subseteq> set ''0123456789''"
  shows "ms (seqs [opt (seqs [lit_i ''Sarga'', Star ws]), Grp 2 (plus digit),
                   NegAhead (seqs [Star ws, Chr '':0123456789''])]) (g, d # ds @ CHR '':'' # Z) = []"
proof -
  let ?LA = "seqs [NegAhead (seqs [Star ws, Chr '':0123456789''])]"
  let ?W = "d # ds @ CHR '':'' # Z"
  have o: "ms (opt (seqs [lit_i ''Sarga'', Star ws])) (g, ?W) = [(g, ?W)]"
    using digit_not_s [OF assms(1)] by (simp add: opt_def seqs_Cons sarga_word_explicit)
  have nd: "ms digit (g, CHR '':'' # Z) = []" by (simp add: digit_def)
  have each: "ms ?LA e = []" if e: "e \<in> set (ms (Grp 2 (plus digit)) (g, ?W))" for e
  proof -
    obtain e0 where e0: "e0 \<in> set (ms (Star digit) (g, ds @ CHR '':'' # Z))"
      "snd e = snd e0"
      using e unfolding grp_plus_digit [OF assms(1)] by (auto simp del: ms.simps)
    have "snd e = CHR '':'' # Z \<or> (\<exists>d' W'. snd e = d' # W' \<and> d' \<in> set ''0123456789'')"
      using star_digit_elems [OF assms(2) nd e0(1)] e0(2) by (simp del: ms.simps)
    from lookahead_hits [OF this, of "fst e"] show ?thesis by (simp del: ms.simps)
  qed
  have "concat (map (ms ?LA) (ms (Grp 2 (plus digit)) (g, ?W))) = []"
    using each by (simp del: ms.simps)
  then have "ms (seqs [Grp 2 (plus digit), NegAhead (seqs [Star ws, Chr '':0123456789''])]) (g, ?W) = []"
    by (simp only: seqs_Cons)
  then show ?thesis
    by (simp only: seqs_Cons [of "opt (seqs [lit_i ''Sarga'', Star ws])"] o list.map concat.simps append_Nil2)
qed

lemma sarga_rest_none:
  assumes "K \<in> set kandaList" "set s \<subseteq> set ''0123456789''" "set v \<subseteq> set ''0123456789''"
  shows "find_all SARGA_ONLY_REGEX off 0
           (tl K @ '' Kanda '' @ s @ '':'' @ v @ ''](http://citation/'' @ K @ ''%20Kanda/'' @ s @ ''/'' @ v @ '')'') = []"
  using kanda_cases [OF assms(1)] assms(2,3)
  by (elim disjE) (simp_all add: sarga_ms sarga_digits scan_simps2)

lemma sarga_tail_space:
  "ms (seqs [opt (seqs [lit_i ''Sarga'', Star ws]), Grp 2 (plus digit),
             NegAhead (seqs [Star ws, Chr '':0123456789''])]) (g, CHR '' '' # Y) = []"
  by (simp add: seqs_def opt_def plus_def digit_def sarga_word_explicit)

lemma sarga_regex_split:
  "SARGA_ONLY_REGEX =
     seqs ([Grp 1 kanda_names, Star ws, lit_i ''Kanda'', Star ws]
           @ [opt (seqs [lit_i ''Sarga'', Star ws]), Grp 2 (plus digit),
              NegAhead (seqs [Star ws, Chr '':0123456789''])])"
  by (simp add: SARGA_ONLY_REGEX_def)

lemma sarga_label_fail:
  assumes "K \<in> set kandaList" "digits s"
  shows "ms SARGA_ONLY_REGEX ([], K @ '' Kanda '' @ s @ CHR '':'' # Z) = []"
proof -
  obtain d ds where s: "s = d # ds" "d \<in> set ''0123456789''" "set ds \<subseteq> set ''0123456789''"
    using assms(2) by (cases s) (auto simp add: digits_def)
  have p: "ms (seqs [Grp 1 kanda_names, Star ws, lit_i ''Kanda'', Star ws])
             ([], K @ '' Kanda '' @ s @ CHR '':'' # Z)
         = [([(1, K)], d # ds @ CHR '':'' # Z), ([(1, K)], CHR '' '' # d # ds @ CHR '':'' # Z)]"
    using kanda_prefix [OF assms(1) s(2), of "ds @ CHR '':'' # Z"] s(1) by (simp del: ms.simps)
  show ?thesis
    by (simp only: sarga_regex_split seqs_append p list.map concat.simps
          sarga_tail_fail [OF s(2,3)] sarga_tail_space append_Nil2)
qed

lemma naked_initial_fail:
  assumes "c \<notin> set ''BbAaKkSsYyUu''"
  shows "ms NAKED_CITATION_REGEX ([], c # Y) = []"
  by (simp only: naked_ms seqs_Cons names_first [OF assms]) simp

lemma sarga_initial_fail:
  assumes "c \<notin> set ''BbAaKkSsYyUu''"
  shows "ms SARGA_ONLY_REGEX ([], c # Y) = []"
  by (simp only: sarga_ms seqs_Cons names_first [OF assms]) simp

text \<open>The four scans over the link.\<close>

lemma encode_kanda:
  "K \<in> set kandaList \<Longrightarrow> encodeURIComponent (K @ '' Kanda'') = K @ ''%20Kanda''"
  by (drule kanda_cases, elim disjE; hypsubst; code_simp)

lemma kanda_no_bracket: "K \<in> set kandaList \<Longrightarrow> K \<noteq> [] \<and> CHR ''['' \<notin> set K"
  by (drule kanda_cases, elim disjE) simp_all

lemma digits_no_bracket: "set s \<subseteq> set ''0123456789'' \<Longrightarrow> CHR ''['' \<notin> set s"
  by auto

lemma rendered_link_settled:
  assumes "K \<in> set kandaList" "digits s" "digits v"
  shows "settled (citation_link (K @ '' Kanda'') s v)"
proof -
  define U where "U = ''](http://citation/'' @ K @ ''%20Kanda/'' @ s @ ''/'' @ v @ '')''"
  define L where "L = K @ '' Kanda '' @ s @ CHR '':'' # v"
  define m where "m = \<lparr>m_text = L, m_groups = [(3, v), (2, s), (1, K)], m_index = Suc 0\<rparr>"
  have ss: "set s \<subseteq> set ''0123456789''" and sv: "set v \<subseteq> set ''0123456789''"
    using assms(2,3) by (simp_all add: digits_def)
  obtain c cs where K: "K = c # cs" "c \<noteq> CHR ''[''" "CHR ''['' \<notin> set cs"
    using kanda_no_bracket [OF assms(1)] by (cases K) auto
  have link: "citation_link (K @ '' Kanda'') s v = CHR ''['' # L @ U"
    by (simp add: citation_link_def citation_href_def encode_kanda [OF assms(1)] L_def U_def)
  have LU: "L @ U = c # (cs @ '' Kanda '' @ s @ '':'' @ v @ U)"
    by (simp add: L_def K(1))
  have nb: "CHR ''['' \<notin> set (cs @ '' Kanda '' @ s @ '':'' @ v @ U)"
    using K(3) kanda_no_bracket [OF assms(1)] digits_no_bracket [OF ss] digits_no_bracket [OF sv]
    by (simp add: U_def)
  have b: "find_all BRACKET_CITATION_REGEX 0 0 (CHR ''['' # L @ U) = []"
    unfolding LU by (rule bracket_absent_after_one [OF K(2) nb])
  have f: "find_all CIT_MARKER_REGEX 0 0 (CHR ''['' # L @ U) = []"
    unfolding LU by (rule marker_absent_after_one [OF K(2) nb])
  have nd: "nondigit_start U" by (simp add: U_def nondigit_start_def)
  have n1: "find_all NAKED_CITATION_REGEX 0 0 (CHR ''['' # L @ U)
          = find_all NAKED_CITATION_REGEX (Suc 0) 0 (L @ U)"
    by (rule find_all_fail, rule naked_initial_fail) simp
  have mh: "match_here NAKED_CITATION_REGEX (Suc 0) (L @ U) = Some m"
    using naked_match [OF assms nd, of "Suc 0"] by (simp add: L_def m_def del: ms.simps)
  have Lne: "L \<noteq> []" by (simp add: L_def K(1))
  have n2: "find_all NAKED_CITATION_REGEX (Suc 0) 0 (L @ U)
          = m # find_all NAKED_CITATION_REGEX (Suc 0 + length L) 0 U"
    by (rule find_all_match [OF mh _ Lne]) (simp add: m_def)
  have n3: "find_all NAKED_CITATION_REGEX (Suc 0 + length L) 0 U = []"
    unfolding U_def by (rule naked_url_none [OF assms(1) ss sv])
  have n: "find_all NAKED_CITATION_REGEX 0 0 (CHR ''['' # L @ U) = [m]"
    by (simp only: n1 n2 n3)
  have adj: "adjacent_to_delimiter (CHR ''['' # L @ U) m"
    by (simp add: adjacent_to_delimiter_def char_at_def m_def)
  have c1: "find_all SARGA_ONLY_REGEX 0 0 (CHR ''['' # L @ U)
          = find_all SARGA_ONLY_REGEX (Suc 0) 0 (L @ U)"
    by (rule find_all_fail, rule sarga_initial_fail) simp
  have lf: "ms SARGA_ONLY_REGEX ([], c # (cs @ '' Kanda '' @ s @ '':'' @ v @ U)) = []"
    using sarga_label_fail [OF assms(1,2), of "v @ U"] by (simp add: K(1) del: ms.simps)
  have c2: "find_all SARGA_ONLY_REGEX (Suc 0) 0 (L @ U)
          = find_all SARGA_ONLY_REGEX (Suc (Suc 0)) 0 (cs @ '' Kanda '' @ s @ '':'' @ v @ U)"
    unfolding LU by (rule find_all_fail [OF lf])
  have c3: "find_all SARGA_ONLY_REGEX (Suc (Suc 0)) 0 (cs @ '' Kanda '' @ s @ '':'' @ v @ U) = []"
    using sarga_rest_none [OF assms(1) ss sv, of "Suc (Suc 0)"]
    by (simp add: K(1) U_def del: find_all.simps)
  have c: "find_all SARGA_ONLY_REGEX 0 0 (CHR ''['' # L @ U) = []"
    by (simp only: c1 c2 c3)
  show ?thesis
    unfolding settled_def link by (simp only: b f n c) (simp add: adj)
qed

lemma rendered_link_fixed_point:
  assumes "K \<in> set kandaList" "digits s" "digits v"
  shows "extract_citations (citation_link (K @ '' Kanda'') s v) = citation_link (K @ '' Kanda'') s v"
  by (rule settled_fixed_point [OF rendered_link_settled [OF assms]])




section \<open>Properties of the citation renderer\<close>

lemma hex_val_hex_digit: "hex_val (hex_digit n) = Some (n mod 16)"
proof -
  define m where "m = n mod 16"
  have "m < 16" by (simp add: m_def)
  then have "m = 0 \<or> m = 1 \<or> m = 2 \<or> m = 3 \<or> m = 4 \<or> m = 5 \<or> m = 6 \<or> m = 7 \<or> m = 8
      \<or> m = 9 \<or> m = 10 \<or> m = 11 \<or> m = 12 \<or> m = 13 \<or> m = 14 \<or> m = 15"
    by arith
  then have "hex_val (''0123456789ABCDEF'' ! m) = Some m"
    unfolding hex_val_def by (elim disjE) simp_all
  then show ?thesis by (simp add: hex_digit_def m_def)
qed

lemma escaped_percent_byte:
  "b < 256 \<Longrightarrow> escaped_byte (percent_byte b @ rest) = Some b"
proof -
  assume "b < 256"
  then have "b div 16 mod 16 = b div 16" by simp
  then show ?thesis
    by (simp add: escaped_byte_def percent_byte_def hex_val_hex_digit)
qed

lemma percent_byte_length: "length (percent_byte b) = 3"
  by (simp add: percent_byte_def)

lemma percent_byte_head: "\<exists>x y. percent_byte b = [CHR ''%'', x, y]"
  by (simp add: percent_byte_def)


lemma percent_not_unreserved: "CHR ''%'' \<notin> set uri_unreserved" "CHR ''/'' \<notin> set uri_unreserved"
  by (simp_all add: uri_unreserved_def lowers_def uppers_def)

lemma decode_percent_byte_ascii:
  assumes "b < 128"
  shows "decodeURIComponent (percent_byte b @ rest) = map_sum id ((#) (char_of b)) (decodeURIComponent rest)"
proof -
  obtain x y where xy: "percent_byte b = [CHR ''%'', x, y]" using percent_byte_head by blast
  have "escaped_byte (CHR ''%'' # x # y # rest) = Some b"
    using escaped_percent_byte [of b rest] assms xy by simp
  then show ?thesis using assms xy by simp
qed

lemma decode_percent_bytes_latin1:
  assumes "194 \<le> b" "b < 196" "128 \<le> b2" "b2 < 192"
  shows "decodeURIComponent (percent_byte b @ percent_byte b2 @ rest)
       = map_sum id ((#) (char_of ((b - 192) * 64 + (b2 - 128)))) (decodeURIComponent rest)"
proof -
  obtain x y where xy: "percent_byte b = [CHR ''%'', x, y]" using percent_byte_head by blast
  obtain x2 y2 where xy2: "percent_byte b2 = [CHR ''%'', x2, y2]" using percent_byte_head by blast
  have e1: "escaped_byte (CHR ''%'' # x # y # CHR ''%'' # x2 # y2 # rest) = Some b"
    using escaped_percent_byte [of b "percent_byte b2 @ rest"] assms xy xy2 by simp
  have e2: "escaped_byte (CHR ''%'' # x2 # y2 # rest) = Some b2"
    using escaped_percent_byte [of b2 rest] assms xy2 by simp
  show ?thesis using assms xy xy2 e1 e2 by simp
qed

lemma decode_encode_unit:
  "decodeURIComponent (encode_unit c @ rest) = map_sum id ((#) c) (decodeURIComponent rest)"
proof (cases "c \<in> set uri_unreserved")
  case True
  then have "c \<noteq> CHR ''%''" using percent_not_unreserved by auto
  then show ?thesis using True by (simp add: encode_unit_def)
next
  case False
  define n where "n = (of_char c :: nat)"
  have n256: "n < 256" by (simp add: n_def)
  have cn: "char_of n = c" by (simp add: n_def)
  show ?thesis
  proof (cases "n < 128")
    case True
    then show ?thesis
      using False decode_percent_byte_ascii [OF True, of rest] cn
      by (simp add: encode_unit_def n_def Let_def)
  next
    case ge: False
    have b: "194 \<le> 192 + n div 64" "192 + n div 64 < 196" using ge n256 by simp_all
    have b2: "128 \<le> 128 + n mod 64" "128 + n mod 64 < 192" by simp_all
    have "(192 + n div 64 - 192) * 64 + (128 + n mod 64 - 128) = n" by simp
    then show ?thesis
      using False ge decode_percent_bytes_latin1 [OF b b2, of rest] cn
      by (simp add: encode_unit_def n_def [symmetric] Let_def)
  qed
qed

lemma decode_encode: "decodeURIComponent (encodeURIComponent k @ rest) = map_sum id ((@) k) (decodeURIComponent rest)"
proof (induction k)
  case Nil
  show ?case by (cases "decodeURIComponent rest") (simp_all add: encodeURIComponent_def)
next
  case (Cons c k)
  have "decodeURIComponent (encodeURIComponent (c # k) @ rest)
      = decodeURIComponent (encode_unit c @ (encodeURIComponent k @ rest))"
    by (simp add: encodeURIComponent_def)
  also have "\<dots> = map_sum id ((#) c) (decodeURIComponent (encodeURIComponent k @ rest))"
    by (rule decode_encode_unit)
  also have "\<dots> = map_sum id ((@) (c # k)) (decodeURIComponent rest)"
    unfolding Cons.IH by (cases "decodeURIComponent rest") simp_all
  finally show ?case .
qed

lemma decode_roundtrip: "decodeURIComponent (encodeURIComponent k) = Inr k"
  using decode_encode [of k "[]"] by simp

lemma hex_digit_mem: "hex_digit m \<in> set ''0123456789ABCDEF''"
  unfolding hex_digit_def by (rule nth_mem) simp

lemma percent_byte_no_slash: "CHR ''/'' \<notin> set (percent_byte b)"
proof -
  have "hex_digit m \<noteq> CHR ''/''" for m
  proof
    assume "hex_digit m = CHR ''/''"
    with hex_digit_mem [of m] have "CHR ''/'' \<in> set ''0123456789ABCDEF''" by simp
    then show False by simp
  qed
  then show ?thesis by (simp add: percent_byte_def eq_commute [of "CHR ''/''"])
qed

lemma encode_unit_no_slash: "CHR ''/'' \<notin> set (encode_unit c)"
proof (cases "c \<in> set uri_unreserved")
  case True
  then have "c \<noteq> CHR ''/''" using percent_not_unreserved by auto
  then show ?thesis using True by (simp add: encode_unit_def)
next
  case False
  then show ?thesis using percent_byte_no_slash by (simp add: encode_unit_def Let_def)
qed

lemma encode_no_slash: "CHR ''/'' \<notin> set (encodeURIComponent k)"
  using encode_unit_no_slash by (induction k) (auto simp add: encodeURIComponent_def)

lemma decode_plain: "CHR ''%'' \<notin> set s \<Longrightarrow> decodeURIComponent s = Inr s"
  by (induction s) auto

lemma split_on_plain: "c \<notin> set a \<Longrightarrow> split_on c a = [a]"
  by (induction a) auto

lemma split_on_append: "c \<notin> set a \<Longrightarrow> split_on c (a @ c # rest) = a # split_on c rest"
  by (induction a) auto


lemma render_citation_href:
  assumes "set s \<subseteq> set ''0123456789''" "set v \<subseteq> set ''0123456789''"
  shows "render_link (citation_href k s v) =
     Inr (Button
       \<lparr>label = (if v = ''0'' then k @ '' '' @ s else k @ '' '' @ s @ '':'' @ v),
        isChapterRef = (v = ''0''),
        title = (if v = ''0'' then ''Chapter Summary'' else ''Tap to read verse''),
        onClick = (if v = ''0'' then None else Some (Some k, Some s, Some v))\<rparr>)"
proof -
  have ns: "CHR ''/'' \<notin> set s" "CHR ''%'' \<notin> set s" using assms(1) by auto
  have nv: "CHR ''/'' \<notin> set v" "CHR ''%'' \<notin> set v" using assms(2) by auto
  let ?path = "encodeURIComponent k @ CHR ''/'' # s @ CHR ''/'' # v"
  have href: "citation_href k s v = ''http://citation/'' @ ?path"
    by (simp add: citation_href_def)
  have path: "replace_first ''http://citation/'' [] (''http://citation/'' @ ?path) = ?path"
    by simp
  have parts: "split_on CHR ''/'' ?path = [encodeURIComponent k, s, v]"
    using split_on_append [OF encode_no_slash, of k "s @ CHR ''/'' # v"]
      split_on_append [OF ns(1), of v] split_on_plain [OF nv(1)] by simp
  have dec: "map_result decodeURIComponent [encodeURIComponent k, s, v] = Inr [k, s, v]"
    by (simp add: decode_roundtrip decode_plain [OF ns(2)] decode_plain [OF nv(2)])
  have pre: "''http://citation/'' @ ?path \<noteq> []
      \<and> take (length ''http://citation/'') (''http://citation/'' @ ?path) = ''http://citation/''"
    by simp
  show ?thesis
    unfolding href render_link_def
    by (simp only: pre path parts dec Let_def if_True simp_thms)
       (simp add: part_def js_str_def)
qed

text \<open>
  Claim C9 fails as stated: the test is on the text of the verse, not on its number. The
  naked citation \<^verbatim>\<open>Bala Kanda 4:00\<close> has verse 0 and is extracted with the verse text
  \<^verbatim>\<open>00\<close>; its link is not the chapter badge, and a click on it sends the lookup for canto
  Bala Kanda, chapter 4 and verse \<^verbatim>\<open>00\<close>.
\<close>

theorem verse_zero_written_00_is_trigger:
  "extract_citations ''Bala Kanda 4:00'' = ''[Bala Kanda 4:00](http://citation/Bala%20Kanda/4/00)''
   \<and> render_link ''http://citation/Bala%20Kanda/4/00''
     = Inr (Button \<lparr>label = ''Bala Kanda 4:00'', isChapterRef = False,
                    title = ''Tap to read verse'',
                    onClick = Some (Some ''Bala Kanda'', Some ''4'', Some ''00'')\<rparr>)
   \<and> click_lookups ''http://localhost:8000''
       (Button \<lparr>label = ''Bala Kanda 4:00'', isChapterRef = False,
                title = ''Tap to read verse'',
                onClick = Some (Some ''Bala Kanda'', Some ''4'', Some ''00'')\<rparr>)
     = [''http://localhost:8000/verse?kanda=Bala%20Kanda&sarga=4&shloka=00'']"
  by code_simp

text \<open>
  Claim C9, as the code has it. For the address the final pass writes for a reference
  \<open>(k, s, v)\<close>, the link component renders a button. When the verse is written \<^verbatim>\<open>0\<close>,
  that one text, the button is the chapter badge and its click sends no lookup; for every
  other verse text, so for every numeral of a verse from 1 on and for a zero written with
  more than one digit, it is not the badge, and its click sends one lookup, for canto \<open>k\<close>,
  chapter \<open>s\<close> and verse \<open>v\<close>.
\<close>

theorem chapter_badge_and_verse_trigger:
  assumes "set s \<subseteq> set ''0123456789''" "set v \<subseteq> set ''0123456789''"
  shows "\<exists>b. render_link (citation_href k s v) = Inr (Button b)
           \<and> isChapterRef b = (v = ''0'')
           \<and> click_lookups baseUrl (Button b) =
               (if v = ''0'' then []
                else [baseUrl @ ''/verse?kanda='' @ encodeURIComponent k @ ''&sarga='' @ s
                        @ ''&shloka='' @ v])"
  unfolding render_citation_href [OF assms]
  by (simp add: click_lookups_def verse_request_def js_str_def)

text \<open>The references (Bala Kanda, 4, 0) and (Bala Kanda, 4, 5).\<close>

theorem chapter_badge_and_verse_trigger_witness:
  "set ''4'' \<subseteq> set ''0123456789'' \<and> set ''0'' \<subseteq> set ''0123456789''
   \<and> set ''5'' \<subseteq> set ''0123456789''
   \<and> (\<exists>b. render_link ''http://citation/Bala%20Kanda/4/0'' = Inr (Button b)
          \<and> isChapterRef b \<and> click_lookups ''http://localhost:8000'' (Button b) = [])
   \<and> (\<exists>b. render_link ''http://citation/Bala%20Kanda/4/5'' = Inr (Button b)
          \<and> \<not> isChapterRef b
          \<and> click_lookups ''http://localhost:8000'' (Button b)
              = [''http://localhost:8000/verse?kanda=Bala%20Kanda&sarga=4&shloka=5''])"
proof -
  have d: "set ''4'' \<subseteq> set ''0123456789''" "set ''0'' \<subseteq> set ''0123456789''"
    "set ''5'' \<subseteq> set ''0123456789''" by simp_all
  have enc: "encodeURIComponent ''Bala Kanda'' = ''Bala%20Kanda''" by code_simp
  have h0: "citation_href ''Bala Kanda'' ''4'' ''0'' = ''http://citation/Bala%20Kanda/4/0''"
    and h5: "citation_href ''Bala Kanda'' ''4'' ''5'' = ''http://citation/Bala%20Kanda/4/5''"
    by (simp_all add: citation_href_def enc)
  show ?thesis
    using d chapter_badge_and_verse_trigger [OF d(1) d(2), of "''Bala Kanda''" "''http://localhost:8000''"]
      chapter_badge_and_verse_trigger [OF d(1) d(3), of "''Bala Kanda''" "''http://localhost:8000''"]
    unfolding h0 h5 enc by simp
qed

end
